theory Spec2Isabelle
  imports Complex_Main "HOL-Library.AList" "HOL-Library.Sublist"
begin

section \<open>JavaScript values and objects\<close>

text \<open>
  The module \<^verbatim>\<open>src/layers/COI.js\<close> works on plain JavaScript objects, arrays and
  strings. A property key is a string: every identifier used as a key (a cluster's
  \<^verbatim>\<open>plan.id\<close>, a part's \<^verbatim>\<open>id\<close>, a COI identifier in an assignment, a COI name) is
  represented by the string it coerces to as a property key.

  An object is an association list in its enumeration order, the order of
  \<^verbatim>\<open>Object.keys\<close> and \<^verbatim>\<open>Object.entries\<close>: keys that are array indices come first, in
  ascending numeric order, then the other keys in the order they were created in. The
  keys of an object are distinct.

  The objects the module creates with \<^verbatim>\<open>{}\<close> inherit the properties of
  \<^verbatim>\<open>Object.prototype\<close>. Reading \<^verbatim>\<open>o[k]\<close> gives the object's own property when it has
  one, else the inherited property when \<open>k\<close> is a property name of \<^verbatim>\<open>Object.prototype\<close>
  (a function; for \<^verbatim>\<open>__proto__\<close> the prototype itself), else \<^verbatim>\<open>undefined\<close>. The
  assignment \<^verbatim>\<open>o[k] = v\<close> creates or updates an own property, except for the key
  \<^verbatim>\<open>__proto__\<close>, whose setter replaces the prototype when \<open>v\<close> is an object and does
  nothing otherwise; it never creates an own property.
\<close>

type_synonym 'v obj = "(string \<times> 'v) list"

datatype error = TypeError

definition digit_of :: "char \<Rightarrow> int option" where
  "digit_of c = (let n = (of_char c :: int) in if 48 \<le> n \<and> n \<le> 57 then Some (n - 48) else None)"

fun decimal :: "int \<Rightarrow> string \<Rightarrow> int option" where
  "decimal acc [] = Some acc"
| "decimal acc (c # cs) = (case digit_of c of None \<Rightarrow> None | Some d \<Rightarrow> decimal (10 * acc + d) cs)"

text \<open>A key is an array index when it is the canonical decimal numeral of an integer
  from 0 to \<open>2^32 - 2\<close>.\<close>

definition array_index :: "string \<Rightarrow> int option" where
  "array_index k =
     (case k of
        [] \<Rightarrow> None
      | c # cs \<Rightarrow>
          if c = CHR ''0'' \<and> cs \<noteq> [] then None
          else (case decimal 0 k of
                  None \<Rightarrow> None
                | Some n \<Rightarrow> if n < 4294967295 then Some n else None))"

fun insert_index :: "int \<Rightarrow> string \<Rightarrow> 'v \<Rightarrow> 'v obj \<Rightarrow> 'v obj" where
  "insert_index n k v [] = [(k, v)]"
| "insert_index n k v ((k', v') # rest) =
     (case array_index k' of
        Some m \<Rightarrow> if m < n then (k', v') # insert_index n k v rest else (k, v) # (k', v') # rest
      | None \<Rightarrow> (k, v) # (k', v') # rest)"

text \<open>\<^verbatim>\<open>o[k] = v\<close>: an existing property keeps its place; a new one is created at the
  place its key has in the enumeration order.\<close>

definition obj_set :: "'v obj \<Rightarrow> string \<Rightarrow> 'v \<Rightarrow> 'v obj" where
  "obj_set ob k v =
     (case array_index k of
        None \<Rightarrow> AList.update k v ob
      | Some n \<Rightarrow> if k \<in> fst ` set ob then AList.update k v ob else insert_index n k v ob)"

text \<open>The property names of \<^verbatim>\<open>Object.prototype\<close>.\<close>

definition proto_names :: "string list" where
  "proto_names =
     [''constructor'', ''__defineGetter__'', ''__defineSetter__'', ''hasOwnProperty'',
      ''__lookupGetter__'', ''__lookupSetter__'', ''isPrototypeOf'', ''propertyIsEnumerable'',
      ''toString'', ''valueOf'', ''__proto__'', ''toLocaleString'']"

text \<open>The assignment \<^verbatim>\<open>o[k] = v\<close> on an object created with \<^verbatim>\<open>{}\<close>, as far as the own
  properties go.\<close>

definition obj_assign :: "'v obj \<Rightarrow> string \<Rightarrow> 'v \<Rightarrow> 'v obj" where
  "obj_assign ob k v = (if k = ''__proto__'' then ob else obj_set ob k v)"

text \<open>
  The values of the style expressions, of the pattern mappings and of the promises.
  \<open>JProto path\<close> stands for an inherited value: \<open>JProto [k]\<close> is what reading the
  property \<open>k\<close> of \<^verbatim>\<open>Object.prototype\<close> on a plain object gives, and \<open>JProto [k, l]\<close> is
  the property \<open>l\<close> of that value.
\<close>

datatype jsval = JUndefined | JStr string | JNum rat | JArr "jsval list" | JProto "string list"

text \<open>The read \<^verbatim>\<open>o[k]\<close> on a plain object.\<close>

definition obj_get :: "jsval obj \<Rightarrow> string \<Rightarrow> jsval" where
  "obj_get ob k =
     (case map_of ob k of
        Some v \<Rightarrow> v
      | None \<Rightarrow> if k \<in> set proto_names then JProto [k] else JUndefined)"

section \<open>Clusters\<close>

text \<open>
  A field that the code tests for truth is \<open>Missing\<close> (\<^verbatim>\<open>undefined\<close> or \<^verbatim>\<open>null\<close>),
  \<open>Falsy\<close> (one of the primitives \<^verbatim>\<open>false\<close>, \<^verbatim>\<open>0\<close>, \<^verbatim>\<open>""\<close>) or \<open>Present\<close> with
  the object the data model prescribes (a truthy value of another kind is outside the
  data model). Reading a property of a \<open>Missing\<close> value throws a \<^verbatim>\<open>TypeError\<close>; reading
  one of a \<open>Falsy\<close> primitive gives \<^verbatim>\<open>undefined\<close>.
\<close>

datatype 'a field = Missing | Falsy | Present 'a

definition Boolean_js :: "'a field \<Rightarrow> bool" where
  "Boolean_js f = (case f of Present _ \<Rightarrow> True | _ \<Rightarrow> False)"

record part =
  part_id :: string
  part_name :: string

text \<open>An assignment value: one COI identifier, or an array of them (\<^verbatim>\<open>Array.isArray\<close>).\<close>

datatype coiids = Single string | Many "string list"

text \<open>The field \<^verbatim>\<open>parts\<close> is \<open>None\<close> when it is not iterable (\<^verbatim>\<open>undefined\<close>,
  \<^verbatim>\<open>null\<close>, a number, a plain object) and the list of the parts otherwise.\<close>

record plan =
  plan_id :: string
  parts :: "part list option"
  assignment :: "coiids obj field"

record cluster =
  plan :: "plan field"

type_synonym unitMap = "string list obj obj"
type_synonym patternMatch = "jsval obj obj"

section \<open>filterCOIs\<close>

definition rules :: "(cluster \<Rightarrow> error + bool) list" where
  "rules =
     [\<lambda>coi. Inr (Boolean_js (plan coi)),
      \<lambda>coi. (case plan coi of
                Missing \<Rightarrow> Inl TypeError
              | Falsy \<Rightarrow> Inr False
              | Present p \<Rightarrow> Inr (Boolean_js (assignment p)))]"

fun filterer :: "(cluster \<Rightarrow> error + bool) list \<Rightarrow> cluster \<Rightarrow> error + bool" where
  "filterer [] cluster = Inr True"
| "filterer (rule # rest) cluster =
     (case rule cluster of
        Inl e \<Rightarrow> Inl e
      | Inr b \<Rightarrow> if \<not> b then Inr False else filterer rest cluster)"

text \<open>\<^verbatim>\<open>Array.prototype.filter\<close> with a callback that may throw.\<close>

fun filter_js :: "('a \<Rightarrow> error + bool) \<Rightarrow> 'a list \<Rightarrow> error + 'a list" where
  "filter_js f [] = Inr []"
| "filter_js f (x # xs) =
     (case f x of
        Inl e \<Rightarrow> Inl e
      | Inr b \<Rightarrow>
          (case filter_js f xs of
             Inl e \<Rightarrow> Inl e
           | Inr ys \<Rightarrow> Inr (if b then x # ys else ys)))"

definition filterCOIs :: "cluster list \<Rightarrow> error + cluster list" where
  "filterCOIs clusters = filter_js (filterer rules) clusters"

text \<open>A valid cluster: \<^verbatim>\<open>plan\<close> and \<^verbatim>\<open>plan.assignment\<close> are both truthy.\<close>

definition valid :: "cluster \<Rightarrow> bool" where
  "valid c = (case plan c of Present p \<Rightarrow> Boolean_js (assignment p) | _ \<Rightarrow> False)"

section \<open>createUnitMap\<close>

text \<open>The name table \<^verbatim>\<open>identifiers\<close>, filled by \<^verbatim>\<open>identifiers[part.id] = part.name\<close>.\<close>

definition identifiers_of :: "part list \<Rightarrow> string obj" where
  "identifiers_of ps =
     fold (\<lambda>part identifiers. obj_assign identifiers (part_id part) (part_name part)) ps []"

definition to_array :: "coiids \<Rightarrow> string list" where
  "to_array coiids = (case coiids of Single coiid \<Rightarrow> [coiid] | Many xs \<Rightarrow> xs)"

text \<open>The value of \<^verbatim>\<open>identifiers[coiid]\<close>: the name of a part, \<^verbatim>\<open>undefined\<close>, or an
  inherited property of \<^verbatim>\<open>Object.prototype\<close>.\<close>

datatype name = Name string | NoName | Inherited string

definition get_name :: "string obj \<Rightarrow> string \<Rightarrow> name" where
  "get_name identifiers coiid =
     (case map_of identifiers coiid of
        Some n \<Rightarrow> Name n
      | None \<Rightarrow> if coiid \<in> set proto_names then Inherited coiid else NoName)"

text \<open>An inherited value as a string, as V8 prints it: the source text of a native
  function, and \<^verbatim>\<open>[object Object]\<close> for the prototype.\<close>

definition native_text :: "string \<Rightarrow> string" where
  "native_text k =
     (if k = ''__proto__'' then ''[object Object]''
      else ''function '' @ (if k = ''constructor'' then ''Object'' else k) @ ''() { [native code] }'')"

text \<open>A name used as a property key; \<^verbatim>\<open>undefined\<close> becomes the key \<^verbatim>\<open>"undefined"\<close>.\<close>

definition name_key :: "name \<Rightarrow> string" where
  "name_key name =
     (case name of Name s \<Rightarrow> s | NoName \<Rightarrow> ''undefined'' | Inherited k \<Rightarrow> native_text k)"

text \<open>Lines 59 to 61. When \<^verbatim>\<open>clusterMap\<close> has no own property \<^verbatim>\<open>name\<close> and \<^verbatim>\<open>name\<close> is
  a property name of \<^verbatim>\<open>Object.prototype\<close>, \<^verbatim>\<open>clusterMap[name]\<close> is the inherited value,
  which is truthy and has no method \<^verbatim>\<open>push\<close>: the call throws.\<close>

definition add_unit ::
  "string obj \<Rightarrow> string \<Rightarrow> string \<Rightarrow> string list obj \<Rightarrow> error + string list obj" where
  "add_unit identifiers unit coiid clusterMap =
     (let name = name_key (get_name identifiers coiid)
      in case map_of clusterMap name of
           Some units \<Rightarrow> Inr (obj_set clusterMap name (units @ [unit]))
         | None \<Rightarrow>
             if name \<in> set proto_names then Inl TypeError
             else Inr (obj_assign clusterMap name [unit]))"

text \<open>A loop whose body may throw.\<close>

fun fold_err :: "('a \<Rightarrow> 's \<Rightarrow> error + 's) \<Rightarrow> 'a list \<Rightarrow> 's \<Rightarrow> error + 's" where
  "fold_err f [] s = Inr s"
| "fold_err f (x # xs) s = (case f x s of Inl e \<Rightarrow> Inl e | Inr s' \<Rightarrow> fold_err f xs s')"

definition add_entry ::
  "string obj \<Rightarrow> string \<times> coiids \<Rightarrow> string list obj \<Rightarrow> error + string list obj" where
  "add_entry identifiers entry clusterMap =
     fold_err (add_unit identifiers (fst entry)) (to_array (snd entry)) clusterMap"

definition clusterMap_of :: "part list \<Rightarrow> coiids obj \<Rightarrow> error + string list obj" where
  "clusterMap_of ps entries = fold_err (add_entry (identifiers_of ps)) entries []"

text \<open>\<^verbatim>\<open>Object.entries\<close> of a tested field.\<close>

definition entries_of :: "'v obj field \<Rightarrow> error + 'v obj" where
  "entries_of f = (case f of Missing \<Rightarrow> Inl TypeError | Falsy \<Rightarrow> Inr [] | Present ob \<Rightarrow> Inr ob)"

text \<open>The loop over the clusters. A \<^verbatim>\<open>plan\<close> that is a falsy primitive has no \<^verbatim>\<open>parts\<close>,
  and the loop over \<^verbatim>\<open>cluster.plan.parts\<close> throws when \<^verbatim>\<open>parts\<close> is not iterable.\<close>

fun createUnitMap_loop :: "cluster list \<Rightarrow> unitMap \<Rightarrow> error + unitMap" where
  "createUnitMap_loop [] unitMap = Inr unitMap"
| "createUnitMap_loop (c # cs) unitMap =
     (case plan c of
        Present p \<Rightarrow>
          (case parts p of
             None \<Rightarrow> Inl TypeError
           | Some ps \<Rightarrow>
               (case entries_of (assignment p) of
                  Inl e \<Rightarrow> Inl e
                | Inr entries \<Rightarrow>
                    (case clusterMap_of ps entries of
                       Inl e \<Rightarrow> Inl e
                     | Inr clusterMap \<Rightarrow>
                         createUnitMap_loop cs (obj_assign unitMap (plan_id p) clusterMap))))
      | _ \<Rightarrow> Inl TypeError)"

definition createUnitMap :: "cluster list \<Rightarrow> error + unitMap" where
  "createUnitMap clusters = createUnitMap_loop clusters []"

section \<open>The rendering engine\<close>

text \<open>
  Modelled from the spec: the rendering engine handle and the unit-rendering target are
  not part of this module, which only calls \<^verbatim>\<open>loadImage(url, callback(error, image))\<close>,
  \<^verbatim>\<open>addImage(name, image)\<close> and \<^verbatim>\<open>setPaintProperty(propertyName, expression)\<close> and never
  reads the handle back. The engine is the list of the \<^verbatim>\<open>addImage\<close> calls it received, in
  call order; an image that is \<^verbatim>\<open>undefined\<close> is \<open>None\<close>. The target is its \<^verbatim>\<open>type\<close>
  and the list of the \<^verbatim>\<open>setPaintProperty\<close> calls it received. What \<^verbatim>\<open>loadImage\<close> passes
  to its callback for a URL, an error (\<open>None\<close> when there is none) and an image, is a
  parameter \<open>loadImage\<close> of the model.
\<close>

record 'img engine =
  addImage_calls :: "(string \<times> 'img option) list"

definition addImage :: "string \<Rightarrow> 'img option \<Rightarrow> 'img engine \<Rightarrow> 'img engine" where
  "addImage name img m = m\<lparr>addImage_calls := addImage_calls m @ [(name, img)]\<rparr>"

record layer =
  layer_type :: string
  paint_calls :: "(string \<times> jsval) list"

definition setPaintProperty :: "layer \<Rightarrow> string \<Rightarrow> jsval \<Rightarrow> layer" where
  "setPaintProperty units name v = units\<lparr>paint_calls := paint_calls units @ [(name, v)]\<rparr>"

section \<open>loadPatterns\<close>

text \<open>A promise settles once: \<^verbatim>\<open>resolve\<close> and \<^verbatim>\<open>reject\<close> do nothing to a settled one.\<close>

datatype promise = Pending | Fulfilled jsval | Rejected jsval

definition resolve :: "jsval \<Rightarrow> promise \<Rightarrow> promise" where
  "resolve v p = (case p of Pending \<Rightarrow> Fulfilled v | _ \<Rightarrow> p)"

definition reject :: "jsval \<Rightarrow> promise \<Rightarrow> promise" where
  "reject r p = (case p of Pending \<Rightarrow> Rejected r | _ \<Rightarrow> p)"

text \<open>The callback handed to \<^verbatim>\<open>map.loadImage\<close> for one pattern (lines 99 to 110), on
  the pattern's promise and the engine. The error is \<open>None\<close> when the engine reports
  none (\<^verbatim>\<open>null\<close>) and an error object, which is truthy, otherwise.\<close>

definition load_callback ::
  "string \<Rightarrow> string option \<Rightarrow> 'img option \<Rightarrow> promise \<times> 'img engine \<Rightarrow> promise \<times> 'img engine" where
  "load_callback pattern error img s =
     (let p1 = (if error \<noteq> None then reject (JStr ''transparent'') (fst s) else fst s);
          m1 = addImage pattern img (snd s);
          p2 = resolve (JStr pattern) p1
      in (p2, m1))"

text \<open>The engine runs the callback of the \<open>i\<close>-th requested image.\<close>

definition deliver ::
  "(string \<Rightarrow> string option \<times> 'img option) \<Rightarrow> string obj \<Rightarrow> nat \<Rightarrow>
   promise list \<times> 'img engine \<Rightarrow> promise list \<times> 'img engine" where
  "deliver loadImage entries i s =
     (if i < length entries \<and> i < length (fst s) then
        (let (pattern, url) = entries ! i;
             (error, img) = loadImage url;
             (p, m) = load_callback pattern error img (fst s ! i, snd s)
         in ((fst s)[i := p], m))
      else s)"

text \<open>\<^verbatim>\<open>Promise.allSettled\<close>: pending (\<open>None\<close>) while a promise is, then the list of
  the result objects.\<close>

definition settled_result :: "promise \<Rightarrow> jsval obj" where
  "settled_result p =
     (case p of
        Fulfilled v \<Rightarrow> [(''status'', JStr ''fulfilled''), (''value'', v)]
      | Rejected r \<Rightarrow> [(''status'', JStr ''rejected''), (''reason'', r)]
      | Pending \<Rightarrow> [])"

definition allSettled :: "promise list \<Rightarrow> jsval obj list option" where
  "allSettled ps = (if list_all (\<lambda>p. p \<noteq> Pending) ps then Some (map settled_result ps) else None)"

text \<open>\<^verbatim>\<open>loadPatterns\<close>: one pending promise and one image request per entry of the
  pattern mapping; then the callbacks run in the order \<open>completion\<close> in which the loads
  complete (a list of positions in the mapping).\<close>

definition loadPatterns ::
  "(string \<Rightarrow> string option \<times> 'img option) \<Rightarrow> nat list \<Rightarrow> 'img engine \<Rightarrow> string obj \<Rightarrow>
   jsval obj list option \<times> 'img engine" where
  "loadPatterns loadImage completion m patternMapping =
     (let patternLoadingPromises = map (\<lambda>_. Pending) patternMapping;
          s = fold (deliver loadImage patternMapping) completion (patternLoadingPromises, m)
      in (allSettled (fst s), snd s))"

section \<open>patternsToCOIs, the function include, resolvesToArray\<close>

text \<open>\<^verbatim>\<open>patterns.shift()\<close>: the first element and the rest; \<^verbatim>\<open>undefined\<close> of an empty
  array.\<close>

definition shift :: "string list \<Rightarrow> jsval \<times> string list" where
  "shift patterns = (case patterns of [] \<Rightarrow> (JUndefined, []) | p # rest \<Rightarrow> (JStr p, rest))"

fun assign_cois :: "string list \<Rightarrow> jsval obj \<Rightarrow> string list \<Rightarrow> jsval obj \<times> string list" where
  "assign_cois [] m patterns = (m, patterns)"
| "assign_cois (coiIdentifier # rest) m patterns =
     (let (v, patterns') = shift patterns
      in assign_cois rest (obj_set m coiIdentifier v) patterns')"

text \<open>The object \<^verbatim>\<open>mapping[clusterIdentifier]\<close> is created empty before the inner loop
  and filled by it; the model stores it once filled, at the same place.\<close>

fun patternsToCOIs_loop :: "unitMap \<Rightarrow> patternMatch \<Rightarrow> string list \<Rightarrow> patternMatch \<times> string list" where
  "patternsToCOIs_loop [] mapping patterns = (mapping, patterns)"
| "patternsToCOIs_loop ((clusterIdentifier, cluster) # rest) mapping patterns =
     (let (m, patterns') = assign_cois (map fst cluster) [] patterns
      in patternsToCOIs_loop rest (obj_set mapping clusterIdentifier m) patterns')"

text \<open>\<^verbatim>\<open>patternsToCOIs\<close> returns the mapping; the model also returns what is left of
  the array \<^verbatim>\<open>patterns\<close>, which the function consumes.\<close>

definition patternsToCOIs :: "unitMap \<Rightarrow> string list \<Rightarrow> patternMatch \<times> string list" where
  "patternsToCOIs unitMap patterns = patternsToCOIs_loop unitMap [] patterns"

definition fromEntries :: "'v obj \<Rightarrow> 'v obj" where
  "fromEntries entries = fold (\<lambda>entry ob. obj_set ob (fst entry) (snd entry)) entries []"

definition include_js :: "'v obj \<Rightarrow> string list \<Rightarrow> 'v obj" where
  "include_js object included = fromEntries (filter (\<lambda>entry. fst entry \<in> set included) object)"

definition resolvesToArray :: "jsval obj list \<Rightarrow> jsval list" where
  "resolvesToArray results = map (\<lambda>result. obj_get result ''value'') results"

section \<open>The style expressions\<close>

text \<open>\<^verbatim>\<open>String.prototype.replace\<close> with a string pattern: the first occurrence is
  replaced (the replacement \<^verbatim>\<open>"icon"\<close> has no \<^verbatim>\<open>$\<close> pattern).\<close>

fun replace :: "string \<Rightarrow> string \<Rightarrow> string \<Rightarrow> string" where
  "replace pat rep [] = (if pat = [] then rep else [])"
| "replace pat rep (c # cs) =
     (if take (length pat) (c # cs) = pat then rep @ drop (length pat) (c # cs)
      else c # replace pat rep cs)"

definition membership :: "string list \<Rightarrow> jsval" where
  "membership geoids =
     JArr [JStr ''in'', JArr [JStr ''get'', JStr ''GEOID20''], JArr [JStr ''literal'', JArr (map JStr geoids)]]"

text \<open>The parameter \<^verbatim>\<open>opacity=1/3\<close>: the default stands in for \<^verbatim>\<open>undefined\<close>. Numbers
  are rationals here; the double nearest to one third is written \<open>1/3\<close>.\<close>

definition opacityStyleExpression :: "layer \<Rightarrow> string list \<Rightarrow> jsval \<Rightarrow> layer" where
  "opacityStyleExpression units geoids opacity_arg =
     (let opacity = (if opacity_arg = JUndefined then JNum (1 / 3) else opacity_arg);
          filter_expr = JArr [JStr ''case'', membership geoids, JNum 0, opacity];
          layer_name = replace ''symbol'' ''icon'' (layer_type units) @ ''-opacity''
      in setPaintProperty units layer_name filter_expr)"

text \<open>The read \<^verbatim>\<open>patternMatch[clusterIdentifier][coiName]\<close>: it throws when
  \<^verbatim>\<open>patternMatch[clusterIdentifier]\<close> is \<^verbatim>\<open>undefined\<close>.\<close>

definition get_pattern :: "patternMatch \<Rightarrow> string \<Rightarrow> string \<Rightarrow> error + jsval" where
  "get_pattern patternMatch clusterIdentifier coiName =
     (case map_of patternMatch clusterIdentifier of
        Some m \<Rightarrow> Inr (obj_get m coiName)
      | None \<Rightarrow>
          if clusterIdentifier \<in> set proto_names then Inr (JProto [clusterIdentifier, coiName])
          else Inl TypeError)"

fun pse_cois :: "patternMatch \<Rightarrow> string \<Rightarrow> string list obj \<Rightarrow> jsval list \<Rightarrow> error + jsval list" where
  "pse_cois patternMatch clusterIdentifier [] expression = Inr expression"
| "pse_cois patternMatch clusterIdentifier ((coiName, geoids) # rest) expression =
     (case get_pattern patternMatch clusterIdentifier coiName of
        Inl e \<Rightarrow> Inl e
      | Inr pattern \<Rightarrow>
          pse_cois patternMatch clusterIdentifier rest (expression @ [membership geoids, pattern]))"

fun pse_clusters :: "patternMatch \<Rightarrow> unitMap \<Rightarrow> jsval list \<Rightarrow> error + jsval list" where
  "pse_clusters patternMatch [] expression = Inr expression"
| "pse_clusters patternMatch ((clusterIdentifier, cluster) # rest) expression =
     (case pse_cois patternMatch clusterIdentifier cluster expression of
        Inl e \<Rightarrow> Inl e
      | Inr expression' \<Rightarrow> pse_clusters patternMatch rest expression')"

text \<open>\<^verbatim>\<open>patternStyleExpression\<close> returns the expression; the model returns the target
  with it, since the function writes to the target.\<close>

definition patternStyleExpression :: "layer \<Rightarrow> unitMap \<Rightarrow> patternMatch \<Rightarrow> error + jsval \<times> layer" where
  "patternStyleExpression units unitMap patternMatch =
     (case pse_clusters patternMatch unitMap [JStr ''case''] of
        Inl e \<Rightarrow> Inl e
      | Inr body \<Rightarrow>
          (let expression = JArr (body @ [JStr ''transparent''])
           in Inr (expression, setPaintProperty units ''fill-pattern'' expression)))"

section \<open>patternStyleExpression on a store\<close>

text \<open>
  JavaScript arrays and objects are held by reference and can be modified in place: the
  expression that \<^verbatim>\<open>patternStyleExpression\<close> builds holds the unit lists of \<^verbatim>\<open>unitMap\<close>
  themselves, grows by \<^verbatim>\<open>push\<close>, and is handed as it is to the target. This section
  models the function a second time, on an explicit store, so that what the function
  leaves unchanged is a property of the model and not an effect of the representation.

  The store is the list of the objects created so far; an address is an index in it, and
  a new object is put at its end. A value is a primitive (\<^verbatim>\<open>undefined\<close>, a string, a number,
  an inherited value \<open>HProto path\<close> as above) or the address of an object. An object is a
  plain object, its own properties in enumeration order, or an array.

  Modelled from the spec: the target \<^verbatim>\<open>units\<close> belongs to the rendering engine. Here it
  is a number that names it, and the store keeps the list of the \<^verbatim>\<open>setPaintProperty\<close>
  calls made so far, each with the target, the property name and the value passed, an
  address when it is an array.
\<close>

type_synonym addr = nat

datatype hval = HUndefined | HStr string | HNum rat | HProto "string list" | HRef addr

datatype hobj = HObject "hval obj" | HArray "hval list"

record store =
  objects :: "hobj list"
  setPaintProperty_calls :: "(nat \<times> string \<times> hval) list"

text \<open>The object at an address, \<open>None\<close> when the store has no such address.\<close>

definition lookup :: "hobj list \<Rightarrow> addr \<Rightarrow> hobj option" where
  "lookup h a = (if a < length h then Some (h ! a) else None)"

text \<open>An array or object literal creates a new object.\<close>

definition alloc :: "hobj \<Rightarrow> store \<Rightarrow> addr \<times> store" where
  "alloc ob s = (length (objects s), s\<lparr>objects := objects s @ [ob]\<rparr>)"

text \<open>\<^verbatim>\<open>a.push(v1, v2)\<close> on the array at an address. The results of the operations
  below are options: \<open>None\<close> stands for a store or an argument that the model has no
  reading for (an address outside the store, \<^verbatim>\<open>push\<close> on an object that is not an array,
  \<^verbatim>\<open>Object.entries\<close> of an array or of a string, a property of a string or of an array).
  The unit maps and pattern assignments of this module, objects of objects, never lead
  there, as the theorems on \<open>patternStyleExpression_store\<close> show.\<close>

definition array_push :: "addr \<Rightarrow> hval list \<Rightarrow> store \<Rightarrow> store option" where
  "array_push a vs s =
     (case lookup (objects s) a of
        Some (HArray xs) \<Rightarrow> Some (s\<lparr>objects := (objects s)[a := HArray (xs @ vs)]\<rparr>)
      | _ \<Rightarrow> None)"

text \<open>\<^verbatim>\<open>Object.entries(v)\<close>: the own properties of a plain object in enumeration order;
  it throws on \<^verbatim>\<open>undefined\<close>.\<close>

definition object_entries :: "store \<Rightarrow> hval \<Rightarrow> (error + hval obj) option" where
  "object_entries s v =
     (case v of
        HRef a \<Rightarrow> (case lookup (objects s) a of Some (HObject ob) \<Rightarrow> Some (Inr ob) | _ \<Rightarrow> None)
      | HUndefined \<Rightarrow> Some (Inl TypeError)
      | _ \<Rightarrow> None)"

text \<open>The read \<^verbatim>\<open>v[k]\<close>: on a plain object the own property, else the inherited one,
  else \<^verbatim>\<open>undefined\<close>; it throws on \<^verbatim>\<open>undefined\<close>.\<close>

definition get_prop :: "store \<Rightarrow> hval \<Rightarrow> string \<Rightarrow> (error + hval) option" where
  "get_prop s v k =
     (case v of
        HRef a \<Rightarrow>
          (case lookup (objects s) a of
             Some (HObject ob) \<Rightarrow>
               Some (Inr (case map_of ob k of
                            Some x \<Rightarrow> x
                          | None \<Rightarrow> if k \<in> set proto_names then HProto [k] else HUndefined))
           | _ \<Rightarrow> None)
      | HUndefined \<Rightarrow> Some (Inl TypeError)
      | HProto path \<Rightarrow> Some (Inr (HProto (path @ [k])))
      | _ \<Rightarrow> None)"

text \<open>\<^verbatim>\<open>patternMatch[clusterIdentifier][coiName]\<close>.\<close>

definition get_pattern_store :: "store \<Rightarrow> hval \<Rightarrow> string \<Rightarrow> string \<Rightarrow> (error + hval) option" where
  "get_pattern_store s patternMatch clusterIdentifier coiName =
     (case get_prop s patternMatch clusterIdentifier of
        None \<Rightarrow> None
      | Some (Inl e) \<Rightarrow> Some (Inl e)
      | Some (Inr m) \<Rightarrow> get_prop s m coiName)"

definition setPaintProperty_store :: "nat \<Rightarrow> string \<Rightarrow> hval \<Rightarrow> store \<Rightarrow> store" where
  "setPaintProperty_store units name v s =
     s\<lparr>setPaintProperty_calls := setPaintProperty_calls s @ [(units, name, v)]\<rparr>"

text \<open>The inner loop: the array literal of \<^verbatim>\<open>subexpression\<close> creates the arrays
  \<^verbatim>\<open>["get", "GEOID20"]\<close>, \<^verbatim>\<open>["literal", geoids]\<close>, which holds the unit list of the unit map
  itself, and \<^verbatim>\<open>["in", ...]\<close>; then the pattern is read, which may throw, and both are
  pushed on \<^verbatim>\<open>expression\<close>. A throw leaves the store as it is at that point.\<close>

fun pse_cois_store ::
  "addr \<Rightarrow> hval \<Rightarrow> string \<Rightarrow> hval obj \<Rightarrow> store \<Rightarrow> ((error + unit) \<times> store) option" where
  "pse_cois_store expression patternMatch clusterIdentifier [] s = Some (Inr (), s)"
| "pse_cois_store expression patternMatch clusterIdentifier ((coiName, geoids) # rest) s =
     (let (get, s1) = alloc (HArray [HStr ''get'', HStr ''GEOID20'']) s;
          (literal, s2) = alloc (HArray [HStr ''literal'', geoids]) s1;
          (subexpression, s3) = alloc (HArray [HStr ''in'', HRef get, HRef literal]) s2
      in case get_pattern_store s3 patternMatch clusterIdentifier coiName of
           None \<Rightarrow> None
         | Some (Inl e) \<Rightarrow> Some (Inl e, s3)
         | Some (Inr pattern) \<Rightarrow>
             (case array_push expression [HRef subexpression, pattern] s3 of
                None \<Rightarrow> None
              | Some s4 \<Rightarrow> pse_cois_store expression patternMatch clusterIdentifier rest s4))"

fun pse_clusters_store ::
  "addr \<Rightarrow> hval \<Rightarrow> hval obj \<Rightarrow> store \<Rightarrow> ((error + unit) \<times> store) option" where
  "pse_clusters_store expression patternMatch [] s = Some (Inr (), s)"
| "pse_clusters_store expression patternMatch ((clusterIdentifier, cluster) # rest) s =
     (case object_entries s cluster of
        None \<Rightarrow> None
      | Some (Inl e) \<Rightarrow> Some (Inl e, s)
      | Some (Inr cois) \<Rightarrow>
          (case pse_cois_store expression patternMatch clusterIdentifier cois s of
             None \<Rightarrow> None
           | Some (Inl e, s') \<Rightarrow> Some (Inl e, s')
           | Some (Inr u, s') \<Rightarrow> pse_clusters_store expression patternMatch rest s'))"

definition patternStyleExpression_store ::
  "nat \<Rightarrow> hval \<Rightarrow> hval \<Rightarrow> store \<Rightarrow> ((error + addr) \<times> store) option" where
  "patternStyleExpression_store units unitMap patternMatch s =
     (let (expression, s1) = alloc (HArray [HStr ''case'']) s
      in case object_entries s1 unitMap of
           None \<Rightarrow> None
         | Some (Inl e) \<Rightarrow> Some (Inl e, s1)
         | Some (Inr clusters) \<Rightarrow>
             (case pse_clusters_store expression patternMatch clusters s1 of
                None \<Rightarrow> None
              | Some (Inl e, s2) \<Rightarrow> Some (Inl e, s2)
              | Some (Inr u, s2) \<Rightarrow>
                  (case array_push expression [HStr ''transparent''] s2 of
                     None \<Rightarrow> None
                   | Some s3 \<Rightarrow>
                       Some (Inr expression,
                             setPaintProperty_store units ''fill-pattern'' (HRef expression) s3))))"

section \<open>addCOIs: the allocation of patterns\<close>

definition numberOfNames :: "unitMap \<Rightarrow> nat" where
  "numberOfNames unitMap = fold (\<lambda>cluster n. n + length (map fst cluster)) (map snd unitMap) 0"

text \<open>Lines 235 to 243 of \<^verbatim>\<open>addCOIs\<close>: the pattern assignment, the chosen patterns and
  what is left of \<^verbatim>\<open>names\<close>. The chosen patterns are computed from \<^verbatim>\<open>names\<close> before
  \<^verbatim>\<open>patternsToCOIs\<close> consumes it.\<close>

definition allocate :: "unitMap \<Rightarrow> string obj \<Rightarrow> patternMatch \<times> string obj \<times> string list" where
  "allocate unitMap patterns =
     (let names = take (numberOfNames unitMap) (map fst patterns);
          chosenPatterns = include_js patterns names;
          (patternMatch, left) = patternsToCOIs unitMap names
      in (patternMatch, chosenPatterns, left))"

section \<open>Notions of the statements\<close>

text \<open>The units listed under a COI name of a cluster map, none when the name is absent.\<close>

definition units_under :: "string list obj \<Rightarrow> string \<Rightarrow> string list" where
  "units_under clusterMap name = (case map_of clusterMap name of None \<Rightarrow> [] | Some us \<Rightarrow> us)"

text \<open>The (cluster, COI name) pairs of a unit map, in its enumeration order.\<close>

definition pairs_of :: "unitMap \<Rightarrow> (string \<times> string) list" where
  "pairs_of unitMap = concat (map (\<lambda>(c, cluster). map (\<lambda>(coi, geoids). (c, coi)) cluster) unitMap)"

text \<open>\<^verbatim>\<open>patternMatch[c][coi]\<close>, where the cluster has an entry.\<close>

definition pattern_of :: "patternMatch \<Rightarrow> string \<times> string \<Rightarrow> jsval option" where
  "pattern_of patternMatch pair =
     (case map_of patternMatch (fst pair) of None \<Rightarrow> None | Some m \<Rightarrow> map_of m (snd pair))"

text \<open>The property key under which \<^verbatim>\<open>createUnitMap\<close> files a unit for a COI
  identifier, read off the list of parts: the name of the last part with that identifier
  (the assignment to \<^verbatim>\<open>identifiers["__proto__"]\<close> creates no property), else the text
  of the inherited value when the identifier is a property name of \<^verbatim>\<open>Object.prototype\<close>,
  else \<^verbatim>\<open>"undefined"\<close>.\<close>

definition resolved_name :: "part list \<Rightarrow> string \<Rightarrow> string" where
  "resolved_name ps i =
     (case find (\<lambda>part. part_id part = i \<and> i \<noteq> ''__proto__'') (rev ps) of
        Some part \<Rightarrow> part_name part
      | None \<Rightarrow> if i \<in> set proto_names then native_text i else ''undefined'')"

text \<open>The clusters on which \<^verbatim>\<open>createUnitMap\<close> does not throw: a truthy \<^verbatim>\<open>plan\<close>,
  iterable \<^verbatim>\<open>parts\<close>, an \<^verbatim>\<open>assignment\<close> other than \<^verbatim>\<open>undefined\<close> and \<^verbatim>\<open>null\<close>, and
  no COI identifier of the assignment that resolves to a property name of
  \<^verbatim>\<open>Object.prototype\<close>.\<close>

definition mappable :: "cluster \<Rightarrow> bool" where
  "mappable c =
     (case plan c of
        Present p \<Rightarrow>
          (case parts p of
             None \<Rightarrow> False
           | Some ps \<Rightarrow>
               (case assignment p of
                  Missing \<Rightarrow> False
                | Falsy \<Rightarrow> True
                | Present a \<Rightarrow>
                    list_all
                      (\<lambda>entry. list_all (\<lambda>i. resolved_name ps i \<notin> set proto_names) (to_array (snd entry)))
                      a))
      | _ \<Rightarrow> False)"

text \<open>The (cluster, COI name, unit list) triples of a unit map in its enumeration order,
  the value that reading \<^verbatim>\<open>patternMatch[c][coi]\<close> gives when the cluster has an entry,
  and the (predicate, pattern) pairs of the triples.\<close>

definition triples_of :: "unitMap \<Rightarrow> (string \<times> string \<times> string list) list" where
  "triples_of unitMap =
     concat (map (\<lambda>(c, cluster). map (\<lambda>(coi, geoids). (c, coi, geoids)) cluster) unitMap)"

definition assigned :: "patternMatch \<Rightarrow> string \<Rightarrow> string \<Rightarrow> jsval" where
  "assigned patternMatch c coi =
     (case map_of patternMatch c of
        None \<Rightarrow> JUndefined
      | Some m \<Rightarrow>
          (case map_of m coi of
             Some pattern \<Rightarrow> pattern
           | None \<Rightarrow> if coi \<in> set proto_names then JProto [coi] else JUndefined))"

definition case_body :: "patternMatch \<Rightarrow> unitMap \<Rightarrow> jsval list" where
  "case_body patternMatch unitMap =
     concat
       (map (\<lambda>(c, coi, geoids).
               [JArr [JStr ''in'', JArr [JStr ''get'', JStr ''GEOID20''],
                      JArr [JStr ''literal'', JArr (map JStr geoids)]],
                assigned patternMatch c coi])
          (triples_of unitMap))"

text \<open>The state in which the promise of a pattern settles once its load has reported
  back.\<close>

definition outcome :: "(string \<Rightarrow> string option \<times> 'img option) \<Rightarrow> string \<times> string \<Rightarrow> promise" where
  "outcome loadImage entry =
     (if fst (loadImage (snd entry)) \<noteq> None then Rejected (JStr ''transparent'')
      else Fulfilled (JStr (fst entry)))"

text \<open>
  What a store holds, read back as a value: the value at the end of the references of
  \<open>v\<close>, following at most \<open>n\<close> of them in a row through arrays; \<open>None\<close> when there are
  more, or when a reference leads to no array. An expression of this module is four
  arrays deep.
\<close>

fun read_val :: "nat \<Rightarrow> hobj list \<Rightarrow> hval \<Rightarrow> jsval option" where
  "read_val n h HUndefined = Some JUndefined"
| "read_val n h (HStr s) = Some (JStr s)"
| "read_val n h (HNum x) = Some (JNum x)"
| "read_val n h (HProto path) = Some (JProto path)"
| "read_val 0 h (HRef a) = None"
| "read_val (Suc n) h (HRef a) =
     (case lookup h a of
        Some (HArray xs) \<Rightarrow> map_option JArr (those (map (read_val n h) xs))
      | _ \<Rightarrow> None)"

definition read_expr :: "hobj list \<Rightarrow> addr \<Rightarrow> jsval option" where
  "read_expr h a = read_val 4 h (HRef a)"

text \<open>A store value that is a primitive, and one that is a string.\<close>

definition prim_of :: "hval \<Rightarrow> jsval option" where
  "prim_of v = read_val 0 [] v"

definition str_of :: "hval \<Rightarrow> string option" where
  "str_of v = (case v of HStr s \<Rightarrow> Some s | _ \<Rightarrow> None)"

text \<open>What a store holds at a value, read as a unit list (an array of strings), as an
  object whose property values are read by \<open>f\<close>, as a unit map (an object of objects of
  unit lists) and as a pattern assignment (an object of objects of primitives); \<open>None\<close>
  when the store holds something else there.\<close>

definition read_strings :: "hobj list \<Rightarrow> hval \<Rightarrow> string list option" where
  "read_strings h v =
     (case v of
        HRef a \<Rightarrow> (case lookup h a of Some (HArray xs) \<Rightarrow> those (map str_of xs) | _ \<Rightarrow> None)
      | _ \<Rightarrow> None)"

definition read_obj :: "(hval \<Rightarrow> 'a option) \<Rightarrow> hobj list \<Rightarrow> hval \<Rightarrow> 'a obj option" where
  "read_obj f h v =
     (case v of
        HRef a \<Rightarrow>
          (case lookup h a of
             Some (HObject ob) \<Rightarrow> those (map (\<lambda>(k, x). map_option (Pair k) (f x)) ob)
           | _ \<Rightarrow> None)
      | _ \<Rightarrow> None)"

definition read_unitMap :: "hobj list \<Rightarrow> hval \<Rightarrow> unitMap option" where
  "read_unitMap h v = read_obj (read_obj (read_strings h) h) h v"

definition read_patternMatch :: "hobj list \<Rightarrow> hval \<Rightarrow> patternMatch option" where
  "read_patternMatch h v = read_obj (read_obj prim_of h) h v"

text \<open>The elements \<open>xs\<close> of the array being built at address \<open>e\<close> read as \<open>acc\<close>, and
  none of them leads back to that array.\<close>

definition elems_read :: "hobj list \<Rightarrow> addr \<Rightarrow> hval list \<Rightarrow> jsval list \<Rightarrow> bool" where
  "elems_read h e xs acc \<longleftrightarrow> list_all2 (\<lambda>v j. read_val 3 (h[e := HObject []]) v = Some j) xs acc"

text \<open>A plain unit map: distinct keys, no cluster identifier \<^verbatim>\<open>__proto__\<close>, and no COI
  name that is the name of a property of \<^verbatim>\<open>Object.prototype\<close>.\<close>

definition plain_unitMap :: "unitMap \<Rightarrow> bool" where
  "plain_unitMap um \<longleftrightarrow>
     distinct (map fst um) \<and> ''__proto__'' \<notin> fst ` set um \<and>
     list_all (\<lambda>e. distinct (map fst (snd e)) \<and> fst ` set (snd e) \<inter> set proto_names = {}) um"

section \<open>Example inputs\<close>

text \<open>The scenario of the specification: cluster A with parts Alpha and Beta, cluster
  B with part Gamma, and a catalog of patterns.\<close>

definition cluster_A :: cluster where
  "cluster_A =
     \<lparr>plan = Present
        \<lparr>plan_id = ''A'',
         parts = Some [\<lparr>part_id = ''0'', part_name = ''Alpha''\<rparr>, \<lparr>part_id = ''1'', part_name = ''Beta''\<rparr>],
         assignment = Present [(''unit1'', Single ''0''), (''unit2'', Many [''0'', ''1''])]\<rparr>\<rparr>"

definition cluster_B :: cluster where
  "cluster_B =
     \<lparr>plan = Present
        \<lparr>plan_id = ''B'',
         parts = Some [\<lparr>part_id = ''5'', part_name = ''Gamma''\<rparr>],
         assignment = Present [(''unit3'', Single ''5'')]\<rparr>\<rparr>"

definition unitMap_AB :: unitMap where
  "unitMap_AB =
     [(''A'', [(''Alpha'', [''unit1'', ''unit2'']), (''Beta'', [''unit2''])]),
      (''B'', [(''Gamma'', [''unit3''])])]"

definition catalog3 :: "string obj" where
  "catalog3 = [(''p1'', ''url1''), (''p2'', ''url2''), (''p3'', ''url3'')]"






definition catalog4 :: "string obj" where
  "catalog4 = [(''p1'', ''url1''), (''p2'', ''url2''), (''p3'', ''url3''), (''p4'', ''url4'')]"

definition catalog2 :: "string obj" where
  "catalog2 = [(''p1'', ''url1''), (''p2'', ''url2'')]"

text \<open>An engine for which the load of \<^verbatim>\<open>url2\<close> fails and every other load succeeds.\<close>

definition loadImage_url2_fails :: "string \<Rightarrow> string option \<times> string option" where
  "loadImage_url2_fails url = (if url = ''url2'' then (Some ''404'', None) else (None, Some ''image''))"

text \<open>A store with the unit map of clusters A and B at address 0 and a pattern
  assignment for it at address 6, the pattern assignment as a value, and the store after
  one call of \<^verbatim>\<open>patternStyleExpression\<close> on target 0.\<close>

definition store_AB :: store where
  "store_AB =
     \<lparr>objects =
        [HObject [(''A'', HRef 1), (''B'', HRef 2)],
         HObject [(''Alpha'', HRef 3), (''Beta'', HRef 4)],
         HObject [(''Gamma'', HRef 5)],
         HArray [HStr ''unit1'', HStr ''unit2''],
         HArray [HStr ''unit2''],
         HArray [HStr ''unit3''],
         HObject [(''A'', HRef 7), (''B'', HRef 8)],
         HObject [(''Alpha'', HStr ''p1''), (''Beta'', HStr ''p2'')],
         HObject [(''Gamma'', HStr ''p3'')]],
      setPaintProperty_calls = []\<rparr>"

definition patternMatch_AB :: patternMatch where
  "patternMatch_AB =
     [(''A'', [(''Alpha'', JStr ''p1''), (''Beta'', JStr ''p2'')]), (''B'', [(''Gamma'', JStr ''p3'')])]"

definition store_AB1 :: store where
  "store_AB1 =
     \<lparr>objects =
        objects store_AB @
        [HArray [HStr ''case'', HRef 12, HStr ''p1'', HRef 15, HStr ''p2'', HRef 18, HStr ''p3'',
                 HStr ''transparent''],
         HArray [HStr ''get'', HStr ''GEOID20''],
         HArray [HStr ''literal'', HRef 3],
         HArray [HStr ''in'', HRef 10, HRef 11],
         HArray [HStr ''get'', HStr ''GEOID20''],
         HArray [HStr ''literal'', HRef 4],
         HArray [HStr ''in'', HRef 13, HRef 14],
         HArray [HStr ''get'', HStr ''GEOID20''],
         HArray [HStr ''literal'', HRef 5],
         HArray [HStr ''in'', HRef 16, HRef 17]],
      setPaintProperty_calls = [(0, ''fill-pattern'', HRef 9)]\<rparr>"

section \<open>Properties of objects\<close>

lemma map_of_insert_index:
  "k \<notin> fst ` set ob \<Longrightarrow> map_of (insert_index n k v ob) x = (if x = k then Some v else map_of ob x)"
  by (induction ob) (auto split: option.splits)

lemma map_of_obj_set: "map_of (obj_set ob k v) = (map_of ob)(k \<mapsto> v)"
  by (auto simp: obj_set_def update_conv' map_of_insert_index fun_eq_iff split: option.splits)

lemma keys_obj_set: "fst ` set (obj_set ob k v) = insert k (fst ` set ob)"
proof -
  have "fst ` set (obj_set ob k v) = dom (map_of (obj_set ob k v))"
    by (simp add: dom_map_of_conv_image_fst)
  also have "\<dots> = insert k (dom (map_of ob))"
    by (simp add: map_of_obj_set)
  finally show ?thesis by (simp add: dom_map_of_conv_image_fst)
qed

lemma keys_insert_index:
  assumes "k \<notin> fst ` set ob"
  shows "fst ` set (insert_index n k v ob) = insert k (fst ` set ob)"
proof -
  have "dom (map_of (insert_index n k v ob)) = insert k (dom (map_of ob))"
    using assms by (auto simp: map_of_insert_index dom_def)
  then show ?thesis by (simp add: dom_map_of_conv_image_fst)
qed

lemma distinct_insert_index:
  "k \<notin> fst ` set ob \<Longrightarrow> distinct (map fst ob) \<Longrightarrow> distinct (map fst (insert_index n k v ob))"
proof (induction ob)
  case Nil
  then show ?case by simp
next
  case (Cons e rest)
  from Cons.prems have notin: "k \<notin> fst ` set rest" and neq: "fst e \<noteq> k" by auto
  have "fst e \<notin> fst ` set (insert_index n k v rest)"
    using Cons.prems neq by (simp add: keys_insert_index [OF notin])
  then show ?case using Cons notin by (cases e) (auto split: option.splits)
qed

lemma distinct_obj_set: "distinct (map fst ob) \<Longrightarrow> distinct (map fst (obj_set ob k v))"
  by (simp add: obj_set_def distinct_update distinct_insert_index split: option.splits)

section \<open>The validator\<close>

lemma filterer_rules: "filterer rules c = Inr (valid c)"
  by (simp add: rules_def valid_def Boolean_js_def split: field.splits)

lemma filter_js_total: "(\<And>x. f x = Inr (g x)) \<Longrightarrow> filter_js f xs = Inr (filter g xs)"
  by (induction xs) simp_all

lemma filterCOIs_eq: "filterCOIs clusters = Inr (filter valid clusters)"
  unfolding filterCOIs_def by (rule filter_js_total) (rule filterer_rules)

text \<open>
  Claim C5. For every list of cluster records, \<^verbatim>\<open>filterCOIs\<close> returns (it never throws)
  a subsequence of its input, the records themselves in their relative order; every
  cluster of the output has a truthy \<^verbatim>\<open>plan\<close> and a truthy \<^verbatim>\<open>plan.assignment\<close>, and every
  input cluster that has both is in the output.
\<close>

theorem filterCOIs_subsequence:
  "\<exists>out. filterCOIs clusters = Inr out \<and> out = filter valid clusters \<and> subseq out clusters \<and>
     (\<forall>c \<in> set out. \<exists>p. plan c = Present p \<and> Boolean_js (plan c) \<and> Boolean_js (assignment p)) \<and>
     (\<forall>c \<in> set clusters. \<forall>p. plan c = Present p \<and> Boolean_js (assignment p) \<longrightarrow> c \<in> set out)"
proof -
  have sub: "subseq (filter valid clusters) clusters" by simp
  have truthy: "\<exists>p. plan c = Present p \<and> Boolean_js (plan c) \<and> Boolean_js (assignment p)"
    if "c \<in> set (filter valid clusters)" for c
    using that by (auto simp: valid_def Boolean_js_def split: field.splits)
  have complete: "c \<in> set (filter valid clusters)"
    if "c \<in> set clusters" and "plan c = Present p \<and> Boolean_js (assignment p)" for c p
    using that by (simp add: valid_def)
  show ?thesis using filterCOIs_eq sub truthy complete by blast
qed

theorem filterCOIs_subsequence_witness:
  "filterCOIs
     [cluster_A, \<lparr>plan = Missing\<rparr>, cluster_B, \<lparr>plan = Falsy\<rparr>,
      \<lparr>plan = Present \<lparr>plan_id = ''C'', parts = Some [], assignment = Missing\<rparr>\<rparr>,
      \<lparr>plan = Present \<lparr>plan_id = ''D'', parts = Some [], assignment = Falsy\<rparr>\<rparr>]
   = Inr [cluster_A, cluster_B]"
  using filterCOIs_subsequence
    [of "[cluster_A, \<lparr>plan = Missing\<rparr>, cluster_B, \<lparr>plan = Falsy\<rparr>,
          \<lparr>plan = Present \<lparr>plan_id = ''C'', parts = Some [], assignment = Missing\<rparr>\<rparr>,
          \<lparr>plan = Present \<lparr>plan_id = ''D'', parts = Some [], assignment = Falsy\<rparr>\<rparr>]"]
  by (simp add: valid_def Boolean_js_def cluster_A_def cluster_B_def)

section \<open>The unit mapper\<close>

lemma proto_in_proto_names: "''__proto__'' \<in> set proto_names"
  by (simp add: proto_names_def)

lemma native_text_not_proto: "native_text k \<notin> set proto_names"
  by (simp add: native_text_def proto_names_def)

lemma undefined_not_proto: "''undefined'' \<notin> set proto_names"
  by (simp add: proto_names_def)

lemma map_of_obj_assign:
  "map_of (obj_assign ob k v) = (if k = ''__proto__'' then map_of ob else (map_of ob)(k \<mapsto> v))"
  by (simp add: obj_assign_def map_of_obj_set)

lemma keys_obj_assign:
  "fst ` set (obj_assign ob k v) = (if k = ''__proto__'' then fst ` set ob else insert k (fst ` set ob))"
  by (simp add: obj_assign_def keys_obj_set)

lemma distinct_obj_assign: "distinct (map fst ob) \<Longrightarrow> distinct (map fst (obj_assign ob k v))"
  by (simp add: obj_assign_def distinct_obj_set)

lemma find_append_js:
  "find P (xs @ ys) = (case find P xs of None \<Rightarrow> find P ys | Some x \<Rightarrow> Some x)"
  by (induction xs) simp_all

lemma map_of_identifiers_of:
  "map_of (identifiers_of ps) i =
     map_option part_name (find (\<lambda>part. part_id part = i \<and> i \<noteq> ''__proto__'') (rev ps))"
proof -
  have "map_of (fold (\<lambda>part ids. obj_assign ids (part_id part) (part_name part)) ps ob) i =
        (case find (\<lambda>part. part_id part = i \<and> i \<noteq> ''__proto__'') (rev ps) of
           Some part \<Rightarrow> Some (part_name part)
         | None \<Rightarrow> map_of ob i)" for ob
  proof (induction ps arbitrary: ob)
    case Nil
    then show ?case by simp
  next
    case (Cons p ps)
    show ?case
      by (auto simp: Cons.IH find_append_js map_of_obj_assign split: option.splits)
  qed
  from this [of "[]"] show ?thesis by (simp add: identifiers_of_def split: option.splits)
qed

lemma name_key_get_name: "name_key (get_name (identifiers_of ps) i) = resolved_name ps i"
  by (simp add: get_name_def name_key_def resolved_name_def map_of_identifiers_of split: option.splits)

lemma add_unit_Inr:
  assumes "add_unit ids u i cm = Inr cm'"
  shows "map_of cm' =
           (map_of cm)(name_key (get_name ids i) \<mapsto> units_under cm (name_key (get_name ids i)) @ [u])"
  using assms proto_in_proto_names
  by (auto simp: add_unit_def Let_def units_under_def map_of_obj_set map_of_obj_assign
      split: option.splits if_splits)


lemma keys_add_unit:
  assumes "add_unit ids u i cm = Inr cm'"
  shows "fst ` set cm' = insert (name_key (get_name ids i)) (fst ` set cm)"
proof -
  have "dom (map_of cm') = insert (name_key (get_name ids i)) (dom (map_of cm))"
    by (simp add: add_unit_Inr [OF assms])
  then show ?thesis by (simp add: dom_map_of_conv_image_fst)
qed

lemma add_unit_total:
  "name_key (get_name ids i) \<notin> set proto_names \<Longrightarrow> \<exists>cm'. add_unit ids u i cm = Inr cm'"
  by (simp add: add_unit_def Let_def split: option.splits)

lemma add_unit_throws:
  "name_key (get_name ids i) \<in> set proto_names \<Longrightarrow> fst ` set cm \<inter> set proto_names = {} \<Longrightarrow>
   add_unit ids u i cm = Inl TypeError"
proof -
  assume k: "name_key (get_name ids i) \<in> set proto_names" and inv: "fst ` set cm \<inter> set proto_names = {}"
  then have "name_key (get_name ids i) \<notin> fst ` set cm" by blast
  then have "map_of cm (name_key (get_name ids i)) = None" by (simp add: map_of_eq_None_iff)
  then show ?thesis using k by (simp add: add_unit_def Let_def)
qed

lemma add_unit_keys_plain:
  assumes "add_unit ids u i cm = Inr cm'" and "fst ` set cm \<inter> set proto_names = {}"
  shows "fst ` set cm' \<inter> set proto_names = {}"
proof -
  have "name_key (get_name ids i) \<notin> set proto_names"
  proof
    assume "name_key (get_name ids i) \<in> set proto_names"
    from add_unit_throws [OF this assms(2)] assms(1) show False by simp
  qed
  then show ?thesis using keys_add_unit [OF assms(1)] assms(2) by simp
qed



lemma fold_add_unit_total:
  "list_all (\<lambda>i. name_key (get_name ids i) \<notin> set proto_names) is \<Longrightarrow>
   \<exists>cm'. fold_err (add_unit ids u) is cm = Inr cm'"
proof (induction "is" arbitrary: cm)
  case Nil
  then show ?case by simp
next
  case (Cons i "is")
  from Cons.prems obtain cm1 where "add_unit ids u i cm = Inr cm1"
    using add_unit_total [of ids i u cm] by auto
  then show ?case using Cons.IH [of cm1] Cons.prems by simp
qed

lemma fold_add_unit_throws:
  "\<not> list_all (\<lambda>i. name_key (get_name ids i) \<notin> set proto_names) is \<Longrightarrow>
   fst ` set cm \<inter> set proto_names = {} \<Longrightarrow>
   fold_err (add_unit ids u) is cm = Inl TypeError"
proof (induction "is" arbitrary: cm)
  case Nil
  then show ?case by simp
next
  case (Cons i "is")
  show ?case
  proof (cases "name_key (get_name ids i) \<in> set proto_names")
    case True
    then show ?thesis using add_unit_throws [OF True Cons.prems(2)] by simp
  next
    case False
    then obtain cm1 where step: "add_unit ids u i cm = Inr cm1"
      using add_unit_total [of ids i u cm] by auto
    have "fst ` set cm1 \<inter> set proto_names = {}"
      using step Cons.prems(2) by (rule add_unit_keys_plain)
    moreover have "\<not> list_all (\<lambda>i. name_key (get_name ids i) \<notin> set proto_names) is"
      using Cons.prems(1) False by simp
    ultimately show ?thesis using Cons.IH step by simp
  qed
qed

lemma fold_add_unit_keys_plain:
  "fold_err (add_unit ids u) is cm = Inr cm' \<Longrightarrow> fst ` set cm \<inter> set proto_names = {} \<Longrightarrow>
   fst ` set cm' \<inter> set proto_names = {}"
proof (induction "is" arbitrary: cm)
  case Nil
  then show ?case by simp
next
  case (Cons i "is")
  from Cons.prems(1) obtain cm1 where step: "add_unit ids u i cm = Inr cm1"
    and rest: "fold_err (add_unit ids u) is cm1 = Inr cm'"
    by (auto split: sum.splits)
  show ?case using Cons.IH [OF rest] add_unit_keys_plain [OF step Cons.prems(2)] by simp
qed



lemma fold_add_entry_total:
  "list_all (\<lambda>e. list_all (\<lambda>i. name_key (get_name ids i) \<notin> set proto_names) (to_array (snd e))) entries \<Longrightarrow>
   \<exists>cm'. fold_err (add_entry ids) entries cm = Inr cm'"
proof (induction entries arbitrary: cm)
  case Nil
  then show ?case by simp
next
  case (Cons e entries)
  from Cons.prems obtain cm1 where "add_entry ids e cm = Inr cm1"
    using fold_add_unit_total [of ids "to_array (snd e)" "fst e" cm] by (auto simp: add_entry_def)
  then show ?case using Cons.IH [of cm1] Cons.prems by simp
qed

lemma fold_add_entry_throws:
  "\<not> list_all (\<lambda>e. list_all (\<lambda>i. name_key (get_name ids i) \<notin> set proto_names) (to_array (snd e))) entries \<Longrightarrow>
   fst ` set cm \<inter> set proto_names = {} \<Longrightarrow>
   fold_err (add_entry ids) entries cm = Inl TypeError"
proof (induction entries arbitrary: cm)
  case Nil
  then show ?case by simp
next
  case (Cons e entries)
  show ?case
  proof (cases "list_all (\<lambda>i. name_key (get_name ids i) \<notin> set proto_names) (to_array (snd e))")
    case False
    then have "add_entry ids e cm = Inl TypeError"
      unfolding add_entry_def using Cons.prems(2) by (rule fold_add_unit_throws)
    then show ?thesis by simp
  next
    case True
    then obtain cm1 where step: "add_entry ids e cm = Inr cm1"
      using fold_add_unit_total [of ids "to_array (snd e)" "fst e" cm] by (auto simp: add_entry_def)
    then have "fst ` set cm1 \<inter> set proto_names = {}"
      unfolding add_entry_def using Cons.prems(2) by (rule fold_add_unit_keys_plain)
    moreover have "\<not> list_all (\<lambda>e. list_all (\<lambda>i. name_key (get_name ids i) \<notin> set proto_names) (to_array (snd e))) entries"
      using Cons.prems(1) True by simp
    ultimately show ?thesis using Cons.IH step by simp
  qed
qed

lemma fold_add_entry_keys_plain:
  "fold_err (add_entry ids) entries cm = Inr cm' \<Longrightarrow> fst ` set cm \<inter> set proto_names = {} \<Longrightarrow>
   fst ` set cm' \<inter> set proto_names = {}"
proof (induction entries arbitrary: cm)
  case Nil
  then show ?case by simp
next
  case (Cons e entries)
  from Cons.prems(1) obtain cm1 where step: "add_entry ids e cm = Inr cm1"
    and rest: "fold_err (add_entry ids) entries cm1 = Inr cm'"
    by (auto split: sum.splits)
  from step have "fst ` set cm1 \<inter> set proto_names = {}"
    unfolding add_entry_def using Cons.prems(2) by (rule fold_add_unit_keys_plain)
  then show ?case using Cons.IH [OF rest] by simp
qed



lemma keys_clusterMap_of_plain:
  "clusterMap_of ps entries = Inr cm \<Longrightarrow> fst ` set cm \<inter> set proto_names = {}"
  using fold_add_entry_keys_plain [of "identifiers_of ps" entries "[]" cm]
  by (simp add: clusterMap_of_def)

lemma clusterMap_of_total:
  "list_all (\<lambda>e. list_all (\<lambda>i. resolved_name ps i \<notin> set proto_names) (to_array (snd e))) entries \<Longrightarrow>
   \<exists>cm. clusterMap_of ps entries = Inr cm"
  unfolding clusterMap_of_def
  by (rule fold_add_entry_total) (simp add: name_key_get_name)

lemma clusterMap_of_throws:
  "\<not> list_all (\<lambda>e. list_all (\<lambda>i. resolved_name ps i \<notin> set proto_names) (to_array (snd e))) entries \<Longrightarrow>
   clusterMap_of ps entries = Inl TypeError"
  unfolding clusterMap_of_def
  by (rule fold_add_entry_throws) (simp_all add: name_key_get_name)




lemma mappable_step:
  assumes "mappable c"
  obtains p ps entries cm where "plan c = Present p" and "parts p = Some ps"
    and "entries_of (assignment p) = Inr entries" and "clusterMap_of ps entries = Inr cm"
proof -
  from assms obtain p ps where p: "plan c = Present p" and ps: "parts p = Some ps"
    by (auto simp: mappable_def split: field.splits option.splits)
  show ?thesis
  proof (cases "assignment p")
    case Missing
    with assms p ps show ?thesis by (simp add: mappable_def)
  next
    case Falsy
    have "clusterMap_of ps [] = Inr []" by (simp add: clusterMap_of_def)
    with p ps Falsy that show ?thesis by (simp add: entries_of_def)
  next
    case (Present a)
    with assms p ps obtain cm where "clusterMap_of ps a = Inr cm"
      using clusterMap_of_total [of ps a] by (auto simp: mappable_def)
    with p ps Present that show ?thesis by (simp add: entries_of_def)
  qed
qed

lemma createUnitMap_loop_total:
  "list_all mappable cs \<Longrightarrow> \<exists>um'. createUnitMap_loop cs um = Inr um'"
proof (induction cs arbitrary: um)
  case Nil
  then show ?case by simp
next
  case (Cons c cs)
  from Cons.prems have "mappable c" by simp
  then obtain p ps entries cm where "plan c = Present p" "parts p = Some ps"
    "entries_of (assignment p) = Inr entries" "clusterMap_of ps entries = Inr cm"
    by (rule mappable_step)
  then show ?case using Cons.IH [of "obj_assign um (plan_id p) cm"] Cons.prems by simp
qed

lemma not_mappable_throws:
  assumes "\<not> mappable c"
  shows "createUnitMap_loop (c # cs) um = Inl TypeError"
proof (cases "plan c")
  case (Present p)
  show ?thesis
  proof (cases "parts p")
    case None
    with Present show ?thesis by simp
  next
    case (Some ps)
    show ?thesis
    proof (cases "assignment p")
      case Missing
      with Present Some show ?thesis by (simp add: entries_of_def)
    next
      case Falsy
      with assms Present Some show ?thesis by (simp add: mappable_def)
    next
      case a: (Present a)
      with assms Present Some have "clusterMap_of ps a = Inl TypeError"
        by (intro clusterMap_of_throws) (simp add: mappable_def)
      with Present Some a show ?thesis by (simp add: entries_of_def)
    qed
  qed
qed simp_all

lemma createUnitMap_loop_throws:
  "\<not> list_all mappable cs \<Longrightarrow> createUnitMap_loop cs um = Inl TypeError"
proof (induction cs arbitrary: um)
  case Nil
  then show ?case by simp
next
  case (Cons c cs)
  show ?case
  proof (cases "mappable c")
    case False
    then show ?thesis by (rule not_mappable_throws)
  next
    case True
    then obtain p ps entries cm where "plan c = Present p" "parts p = Some ps"
      "entries_of (assignment p) = Inr entries" "clusterMap_of ps entries = Inr cm"
      by (rule mappable_step)
    then show ?thesis using Cons.IH Cons.prems True by simp
  qed
qed

lemma createUnitMap_returns_iff: "(\<exists>um. createUnitMap cs = Inr um) \<longleftrightarrow> list_all mappable cs"
  using createUnitMap_loop_total [of cs "[]"] createUnitMap_loop_throws [of cs "[]"]
  by (cases "list_all mappable cs") (auto simp: createUnitMap_def)










section \<open>The pattern allocator\<close>

lemma snd_shift: "snd (shift ps) = drop 1 ps"
  by (simp add: shift_def split: list.splits)

lemma fst_shift: "fst (shift ps) = (if 0 < length ps then JStr (ps ! 0) else JUndefined)"
  by (simp add: shift_def split: list.splits)

lemma snd_assign_cois: "snd (assign_cois cois m ps) = drop (length cois) ps"
  by (induction cois arbitrary: m ps) (simp_all add: split_beta snd_shift)

lemma assign_cois_frame:
  "k \<notin> set cois \<Longrightarrow> map_of (fst (assign_cois cois m ps)) k = map_of m k"
  by (induction cois arbitrary: m ps) (simp_all add: split_beta map_of_obj_set)

lemma assign_cois_lookup:
  "distinct cois \<Longrightarrow> j < length cois \<Longrightarrow>
   map_of (fst (assign_cois cois m ps)) (cois ! j) =
     Some (if j < length ps then JStr (ps ! j) else JUndefined)"
proof (induction cois arbitrary: m ps j)
  case Nil
  then show ?case by simp
next
  case (Cons c cois)
  show ?case
  proof (cases j)
    case 0
    have "map_of (fst (assign_cois cois (obj_set m c (fst (shift ps))) (snd (shift ps)))) c =
          map_of (obj_set m c (fst (shift ps))) c"
      using Cons.prems(1) by (intro assign_cois_frame) simp
    then show ?thesis using 0 by (simp add: split_beta map_of_obj_set fst_shift)
  next
    case (Suc j')
    have "map_of (fst (assign_cois cois (obj_set m c (fst (shift ps))) (snd (shift ps)))) (cois ! j') =
          Some (if j' < length (snd (shift ps)) then JStr (snd (shift ps) ! j') else JUndefined)"
      using Cons.prems Suc by (intro Cons.IH) simp_all
    then show ?thesis using Suc by (auto simp: split_beta snd_shift)
  qed
qed

lemma keys_assign_cois: "fst ` set (fst (assign_cois cois m ps)) = set cois \<union> fst ` set m"
  by (induction cois arbitrary: m ps) (auto simp: split_beta keys_obj_set)

lemma pairs_of_Cons: "pairs_of ((c, cl) # um) = map (\<lambda>coi. (c, coi)) (map fst cl) @ pairs_of um"
  by (simp add: pairs_of_def split_beta comp_def)

lemma numberOfNames_eq: "numberOfNames um = length (pairs_of um)"
proof -
  have "fold (\<lambda>cluster n. n + length (map fst cluster)) (map snd um) k = k + length (pairs_of um)" for k
    by (induction um arbitrary: k) (auto simp: pairs_of_def split_beta)
  then show ?thesis by (simp add: numberOfNames_def)
qed

lemma snd_patternsToCOIs_loop:
  "snd (patternsToCOIs_loop um mp ps) = drop (length (pairs_of um)) ps"
proof (induction um arbitrary: mp ps)
  case Nil
  then show ?case by (simp add: pairs_of_def)
next
  case (Cons e um)
  obtain c cl where e: "e = (c, cl)" by (cases e)
  show ?case
    using Cons.IH by (simp add: e split_beta snd_assign_cois pairs_of_Cons add.commute)
qed

lemma patternsToCOIs_loop_frame:
  "k \<notin> fst ` set um \<Longrightarrow> map_of (fst (patternsToCOIs_loop um mp ps)) k = map_of mp k"
proof (induction um arbitrary: mp ps)
  case Nil
  then show ?case by simp
next
  case (Cons e um)
  obtain c cl where e: "e = (c, cl)" by (cases e)
  from Cons.prems e have "k \<noteq> c" "k \<notin> fst ` set um" by auto
  then show ?case using Cons.IH by (simp add: e split_beta map_of_obj_set)
qed

lemma keys_patternsToCOIs_loop:
  "fst ` set (fst (patternsToCOIs_loop um mp ps)) = fst ` set um \<union> fst ` set mp"
proof (induction um arbitrary: mp ps)
  case Nil
  then show ?case by simp
next
  case (Cons e um)
  obtain c cl where e: "e = (c, cl)" by (cases e)
  show ?case using Cons.IH by (auto simp: e split_beta keys_obj_set)
qed

lemma patternsToCOIs_loop_lookup:
  "distinct (map fst um) \<Longrightarrow> \<forall>e \<in> set um. distinct (map fst (snd e)) \<Longrightarrow>
   i < length (pairs_of um) \<Longrightarrow>
   pattern_of (fst (patternsToCOIs_loop um mp ps)) (pairs_of um ! i) =
     Some (if i < length ps then JStr (ps ! i) else JUndefined)"
proof (induction um arbitrary: mp ps i)
  case Nil
  then show ?case by (simp add: pairs_of_def)
next
  case (Cons e um)
  obtain c cl where e: "e = (c, cl)" by (cases e)
  let ?keys = "map fst cl"
  let ?m = "fst (assign_cois ?keys [] ps)"
  let ?ps' = "snd (assign_cois ?keys [] ps)"
  let ?mp' = "obj_set mp c ?m"
  have loop: "patternsToCOIs_loop (e # um) mp ps = patternsToCOIs_loop um ?mp' ?ps'"
    by (simp add: e split_beta)
  have ps': "?ps' = drop (length cl) ps" by (simp add: snd_assign_cois)
  from Cons.prems(1) e have c_notin: "c \<notin> fst ` set um" and dist: "distinct (map fst um)" by auto
  from Cons.prems(2) e have dcl: "distinct ?keys" and dum: "\<forall>e \<in> set um. distinct (map fst (snd e))"
    by auto
  show ?case
  proof (cases "i < length cl")
    case True
    then have pair: "pairs_of (e # um) ! i = (c, ?keys ! i)"
      by (simp add: e pairs_of_Cons nth_append)
    have "map_of (fst (patternsToCOIs_loop um ?mp' ?ps')) c = map_of ?mp' c"
      using c_notin by (rule patternsToCOIs_loop_frame)
    then have "map_of (fst (patternsToCOIs_loop (e # um) mp ps)) c = Some ?m"
      by (simp add: loop map_of_obj_set)
    moreover have "map_of ?m (?keys ! i) = Some (if i < length ps then JStr (ps ! i) else JUndefined)"
      using dcl True by (intro assign_cois_lookup) simp_all
    ultimately show ?thesis by (simp add: pattern_of_def pair)
  next
    case False
    let ?i = "i - length cl"
    from False Cons.prems(3) have i': "?i < length (pairs_of um)"
      by (simp add: e pairs_of_Cons)
    from False have pair: "pairs_of (e # um) ! i = pairs_of um ! ?i"
      by (simp add: e pairs_of_Cons nth_append)
    have "pattern_of (fst (patternsToCOIs_loop um ?mp' ?ps')) (pairs_of um ! ?i) =
          Some (if ?i < length ?ps' then JStr (?ps' ! ?i) else JUndefined)"
      using dist dum i' by (rule Cons.IH)
    moreover have "(?i < length ?ps') = (i < length ps)" using False by (auto simp: ps')
    moreover have "i < length ps \<Longrightarrow> ?ps' ! ?i = ps ! i" using False by (simp add: ps')
    ultimately show ?thesis by (simp add: loop pair)
  qed
qed

lemma distinct_pairs_of:
  "distinct (map fst um) \<Longrightarrow> \<forall>e \<in> set um. distinct (map fst (snd e)) \<Longrightarrow> distinct (pairs_of um)"
proof (induction um)
  case Nil
  then show ?case by (simp add: pairs_of_def)
next
  case (Cons e um)
  obtain c cl where e: "e = (c, cl)" by (cases e)
  have "fst ` set (pairs_of um) \<subseteq> fst ` set um"
    by (force simp: pairs_of_def split_beta)
  moreover from Cons.prems(1) e have "c \<notin> fst ` set um" by simp
  ultimately have "c \<notin> fst ` set (pairs_of um)" by blast
  then have disjoint: "set (map (\<lambda>coi. (c, coi)) (map fst cl)) \<inter> set (pairs_of um) = {}"
    by force
  from Cons.prems(2) e have "distinct (map fst cl)" by simp
  then have here: "distinct (map (\<lambda>coi. (c, coi)) (map fst cl))"
    by (simp add: distinct_map inj_on_def)
  from Cons have rest: "distinct (pairs_of um)" by simp
  show ?case
    unfolding e pairs_of_Cons using here rest disjoint by (simp only: distinct_append simp_thms)
qed

lemma map_of_fromEntries: "map_of (fromEntries es) = map_of (rev es)"
proof -
  have "map_of (fold (\<lambda>entry ob. obj_set ob (fst entry) (snd entry)) es ob) = map_of (rev es @ ob)" for ob
    by (induction es arbitrary: ob) (simp_all add: map_of_obj_set fun_eq_iff map_add_def split: option.splits)
  then show ?thesis by (simp add: fromEntries_def)
qed

lemma filter_take_keys:
  "distinct (map fst ps) \<Longrightarrow> filter (\<lambda>entry. fst entry \<in> set (take n (map fst ps))) ps = take n ps"
proof (induction ps arbitrary: n)
  case Nil
  then show ?case by simp
next
  case (Cons e ps)
  show ?case
  proof (cases n)
    case 0
    then show ?thesis by simp
  next
    case (Suc m)
    from Cons.prems have notin: "fst e \<notin> fst ` set ps" and d: "distinct (map fst ps)" by auto
    have "fst x \<noteq> fst e" if "x \<in> set ps" for x
      using that notin by (metis imageI)
    then have "filter (\<lambda>entry. fst entry \<in> insert (fst e) (set (take m (map fst ps)))) ps =
          filter (\<lambda>entry. fst entry \<in> set (take m (map fst ps))) ps"
      by (intro filter_cong) simp_all
    then show ?thesis using Suc Cons.IH [OF d, of m] by simp
  qed
qed

lemma include_js_take:
  "distinct (map fst ps) \<Longrightarrow> map_of (include_js ps (take n (map fst ps))) = map_of (take n ps)"
proof -
  assume d: "distinct (map fst ps)"
  then have "distinct (map fst (take n ps))" by (simp add: take_map [symmetric])
  then have "map_of (rev (take n ps)) = map_of (take n ps)"
    by (intro map_of_inject_set [THEN iffD2]) (simp_all add: rev_map [symmetric])
  then show ?thesis using d by (simp add: include_js_def map_of_fromEntries filter_take_keys)
qed

lemma allocate_parts:
  "allocate um patterns =
     (fst (patternsToCOIs um (take (numberOfNames um) (map fst patterns))),
      include_js patterns (take (numberOfNames um) (map fst patterns)), [])"
  by (simp add: allocate_def Let_def split_beta patternsToCOIs_def snd_patternsToCOIs_loop numberOfNames_eq)

lemma allocate_patterns:
  assumes "distinct (map fst um)" and "\<forall>e \<in> set um. distinct (map fst (snd e))"
  shows "map (pattern_of (fst (allocate um patterns))) (pairs_of um) =
         map (\<lambda>i. Some (if i < length patterns then JStr (map fst patterns ! i) else JUndefined))
           [0..<numberOfNames um]"
proof (rule nth_equalityI)
  show "length (map (pattern_of (fst (allocate um patterns))) (pairs_of um)) =
        length (map (\<lambda>i. Some (if i < length patterns then JStr (map fst patterns ! i) else JUndefined))
           [0..<numberOfNames um])"
    by (simp add: numberOfNames_eq)
next
  fix i
  assume "i < length (map (pattern_of (fst (allocate um patterns))) (pairs_of um))"
  then have i: "i < length (pairs_of um)" by simp
  let ?names = "take (numberOfNames um) (map fst patterns)"
  have "pattern_of (fst (patternsToCOIs_loop um [] ?names)) (pairs_of um ! i) =
        Some (if i < length ?names then JStr (?names ! i) else JUndefined)"
    using assms i by (rule patternsToCOIs_loop_lookup)
  moreover have "(i < length ?names) = (i < length patterns)"
    using i by (simp add: numberOfNames_eq)
  moreover have "i < length patterns \<Longrightarrow> ?names ! i = map fst patterns ! i"
    using i by (simp add: numberOfNames_eq)
  ultimately show "map (pattern_of (fst (allocate um patterns))) (pairs_of um) ! i =
        map (\<lambda>i. Some (if i < length patterns then JStr (map fst patterns ! i) else JUndefined))
           [0..<numberOfNames um] ! i"
    using i by (simp add: allocate_parts patternsToCOIs_def numberOfNames_eq)
qed

text \<open>
  Claim C2. For a unit map with \<open>N\<close> (cluster, COI name) pairs and a catalog of at
  least \<open>N\<close> patterns, the allocation in \<^verbatim>\<open>addCOIs\<close> gives the pairs, in the unit map's
  enumeration order, exactly the first \<open>N\<close> pattern names of the catalog, in the catalog's
  enumeration order: every pair has a pattern name, no two pairs have the same one, the
  array of names is used up, and the chosen patterns are the first \<open>N\<close> entries of the
  catalog. (The keys of an object are distinct.)
\<close>

theorem allocate_distinct:
  assumes "distinct (map fst um)" and "\<forall>e \<in> set um. distinct (map fst (snd e))"
    and "distinct (map fst patterns)" and "numberOfNames um \<le> length patterns"
  shows "\<exists>pm chosen. allocate um patterns = (pm, chosen, []) \<and>
           length (pairs_of um) = numberOfNames um \<and> distinct (pairs_of um) \<and>
           map (pattern_of pm) (pairs_of um) =
             map (\<lambda>name. Some (JStr name)) (take (numberOfNames um) (map fst patterns)) \<and>
           distinct (map (pattern_of pm) (pairs_of um)) \<and>
           map_of chosen = map_of (take (numberOfNames um) patterns)"
proof -
  let ?N = "numberOfNames um"
  let ?pm = "fst (allocate um patterns)"
  have "map (\<lambda>i. Some (if i < length patterns then JStr (map fst patterns ! i) else JUndefined)) [0..<?N] =
        map (\<lambda>name. Some (JStr name)) (take ?N (map fst patterns))"
    using assms(4) by (intro nth_equalityI) simp_all
  then have eq: "map (pattern_of ?pm) (pairs_of um) =
      map (\<lambda>name. Some (JStr name)) (take ?N (map fst patterns))"
    using allocate_patterns [OF assms(1,2), of patterns] by simp
  have "distinct (take ?N (map fst patterns))" using assms(3) by (rule distinct_take)
  then have "distinct (map (\<lambda>name. Some (JStr name)) (take ?N (map fst patterns)))"
    by (simp add: distinct_map inj_on_def)
  then have d: "distinct (map (pattern_of ?pm) (pairs_of um))" using eq by simp
  let ?chosen = "include_js patterns (take ?N (map fst patterns))"
  show ?thesis
  proof (intro exI conjI)
    show "allocate um patterns = (?pm, ?chosen, [])" by (simp add: allocate_parts)
    show "length (pairs_of um) = ?N" by (simp add: numberOfNames_eq)
    show "distinct (pairs_of um)" using assms(1,2) by (rule distinct_pairs_of)
    show "map (pattern_of ?pm) (pairs_of um) =
      map (\<lambda>name. Some (JStr name)) (take ?N (map fst patterns))" by (rule eq)
    show "distinct (map (pattern_of ?pm) (pairs_of um))" by (rule d)
    show "map_of ?chosen = map_of (take ?N patterns)" using assms(3) by (rule include_js_take)
  qed
qed

theorem allocate_distinct_witness:
  "\<exists>pm chosen. allocate unitMap_AB catalog4 = (pm, chosen, []) \<and>
     map (pattern_of pm) [(''A'', ''Alpha''), (''A'', ''Beta''), (''B'', ''Gamma'')] =
       [Some (JStr ''p1''), Some (JStr ''p2''), Some (JStr ''p3'')] \<and>
     map_of chosen = map_of [(''p1'', ''url1''), (''p2'', ''url2''), (''p3'', ''url3'')]"
proof -
  have um: "distinct (map fst unitMap_AB)" "\<forall>e \<in> set unitMap_AB. distinct (map fst (snd e))"
    by (simp_all add: unitMap_AB_def)
  have cat: "distinct (map fst catalog4)" by (simp add: catalog4_def)
  have n: "numberOfNames unitMap_AB = 3" by (simp add: numberOfNames_def unitMap_AB_def)
  then have le: "numberOfNames unitMap_AB \<le> length catalog4" by (simp add: catalog4_def)
  have pairs: "pairs_of unitMap_AB = [(''A'', ''Alpha''), (''A'', ''Beta''), (''B'', ''Gamma'')]"
    by (simp add: pairs_of_def unitMap_AB_def)
  from allocate_distinct [OF um cat le] show ?thesis
    unfolding n pairs by (auto simp: catalog4_def)
qed

text \<open>
  Claim C6. For a unit map with \<open>N\<close> pairs and a catalog of \<open>M < N\<close> patterns, the
  allocation does not fail: the first \<open>M\<close> pairs, in the unit map's enumeration order,
  get the \<open>M\<close> pattern names in catalog order, each name once, and every remaining pair
  gets \<^verbatim>\<open>undefined\<close>, no pattern.
\<close>

theorem allocate_exhausted:
  assumes "distinct (map fst um)" and "\<forall>e \<in> set um. distinct (map fst (snd e))"
    and "distinct (map fst patterns)" and "length patterns < numberOfNames um"
  shows "\<exists>pm chosen. allocate um patterns = (pm, chosen, []) \<and>
           length (pairs_of um) = numberOfNames um \<and> distinct (pairs_of um) \<and>
           map (pattern_of pm) (pairs_of um) =
             map (\<lambda>name. Some (JStr name)) (map fst patterns) @
             replicate (numberOfNames um - length patterns) (Some JUndefined) \<and>
           distinct (take (length patterns) (map (pattern_of pm) (pairs_of um)))"
proof -
  let ?N = "numberOfNames um"
  let ?M = "length patterns"
  let ?pm = "fst (allocate um patterns)"
  have "map (\<lambda>i. Some (if i < ?M then JStr (map fst patterns ! i) else JUndefined)) [0..<?N] =
        map (\<lambda>name. Some (JStr name)) (map fst patterns) @ replicate (?N - ?M) (Some JUndefined)"
    using assms(4) by (intro nth_equalityI) (auto simp: nth_append)
  then have eq: "map (pattern_of ?pm) (pairs_of um) =
      map (\<lambda>name. Some (JStr name)) (map fst patterns) @ replicate (?N - ?M) (Some JUndefined)"
    using allocate_patterns [OF assms(1,2), of patterns] by simp
  have "distinct (map (\<lambda>name. Some (JStr name)) (map fst patterns))"
    using assms(3) by (simp add: distinct_map inj_on_def)
  then have d: "distinct (take ?M (map (pattern_of ?pm) (pairs_of um)))"
    unfolding eq by simp
  let ?chosen = "include_js patterns (take ?N (map fst patterns))"
  show ?thesis
  proof (intro exI conjI)
    show "allocate um patterns = (?pm, ?chosen, [])" by (simp add: allocate_parts)
    show "length (pairs_of um) = ?N" by (simp add: numberOfNames_eq)
    show "distinct (pairs_of um)" using assms(1,2) by (rule distinct_pairs_of)
    show "map (pattern_of ?pm) (pairs_of um) =
      map (\<lambda>name. Some (JStr name)) (map fst patterns) @ replicate (?N - ?M) (Some JUndefined)"
      by (rule eq)
    show "distinct (take ?M (map (pattern_of ?pm) (pairs_of um)))" by (rule d)
  qed
qed

theorem allocate_exhausted_witness:
  "\<exists>pm chosen. allocate unitMap_AB catalog2 = (pm, chosen, []) \<and>
     map (pattern_of pm) [(''A'', ''Alpha''), (''A'', ''Beta''), (''B'', ''Gamma'')] =
       [Some (JStr ''p1''), Some (JStr ''p2''), Some JUndefined]"
proof -
  have um: "distinct (map fst unitMap_AB)" "\<forall>e \<in> set unitMap_AB. distinct (map fst (snd e))"
    by (simp_all add: unitMap_AB_def)
  have cat: "distinct (map fst catalog2)" by (simp add: catalog2_def)
  have n: "numberOfNames unitMap_AB = 3" by (simp add: numberOfNames_def unitMap_AB_def)
  then have less: "length catalog2 < numberOfNames unitMap_AB" by (simp add: catalog2_def)
  have pairs: "pairs_of unitMap_AB = [(''A'', ''Alpha''), (''A'', ''Beta''), (''B'', ''Gamma'')]"
    by (simp add: pairs_of_def unitMap_AB_def)
  from allocate_exhausted [OF um cat less] show ?thesis
    unfolding n pairs by (auto simp: catalog2_def)
qed

section \<open>The style compiler\<close>

lemma triples_of_Cons:
  "triples_of ((c, cl) # um) = map (\<lambda>(coi, geoids). (c, coi, geoids)) cl @ triples_of um"
  by (simp add: triples_of_def)

lemma get_pattern_entry:
  "map_of pm c = Some m \<Longrightarrow> get_pattern pm c coi = Inr (assigned pm c coi)"
  by (simp add: get_pattern_def assigned_def obj_get_def split: option.splits)

lemma pse_cois_entry:
  "map_of pm c = Some m \<Longrightarrow>
   pse_cois pm c cl acc =
     Inr (acc @ concat (map (\<lambda>(coi, geoids). [membership geoids, assigned pm c coi]) cl))"
  by (induction cl arbitrary: acc) (auto simp: get_pattern_entry)

lemma pse_cois_no_entry:
  "map_of pm c = None \<Longrightarrow> c \<notin> set proto_names \<Longrightarrow> cl \<noteq> [] \<Longrightarrow>
   pse_cois pm c cl acc = Inl TypeError"
  by (cases cl) (auto simp: get_pattern_def)

lemma pse_cois_body:
  assumes "cl \<noteq> [] \<longrightarrow> c \<in> fst ` set pm"
  shows "pse_cois pm c cl acc = Inr (acc @ case_body pm [(c, cl)])"
proof (cases cl)
  case Nil
  then show ?thesis by (simp add: case_body_def triples_of_def)
next
  case (Cons e rest)
  with assms obtain m where m: "map_of pm c = Some m"
    by (metis domD dom_map_of_conv_image_fst list.distinct(1))
  have "concat (map (\<lambda>(coi, geoids). [membership geoids, assigned pm c coi]) cl) = case_body pm [(c, cl)]"
    by (simp add: case_body_def triples_of_def membership_def comp_def case_prod_unfold)
  then show ?thesis using pse_cois_entry [OF m] by simp
qed

lemma case_body_Cons: "case_body pm ((c, cl) # um) = case_body pm [(c, cl)] @ case_body pm um"
  by (simp add: case_body_def triples_of_def)

lemma pse_clusters_body:
  "\<forall>e \<in> set um. snd e \<noteq> [] \<longrightarrow> fst e \<in> fst ` set pm \<Longrightarrow>
   pse_clusters pm um acc = Inr (acc @ case_body pm um)"
proof (induction um arbitrary: acc)
  case Nil
  then show ?case by (simp add: case_body_def triples_of_def)
next
  case (Cons e um)
  obtain c cl where e: "e = (c, cl)" by (cases e)
  from Cons.prems e have here: "cl \<noteq> [] \<longrightarrow> c \<in> fst ` set pm"
    and rest: "\<forall>e \<in> set um. snd e \<noteq> [] \<longrightarrow> fst e \<in> fst ` set pm" by auto
  show ?case
    using pse_cois_body [OF here] Cons.IH [OF rest]
    by (simp add: e case_body_Cons [of pm c cl um])
qed

lemma pse_clusters_throws:
  "(c, cl) \<in> set um \<Longrightarrow> cl \<noteq> [] \<Longrightarrow> c \<notin> fst ` set pm \<Longrightarrow> c \<notin> set proto_names \<Longrightarrow>
   pse_clusters pm um acc = Inl TypeError"
proof (induction um arbitrary: acc)
  case Nil
  then show ?case by simp
next
  case (Cons e um)
  obtain c' cl' where e: "e = (c', cl')" by (cases e)
  show ?case
  proof (cases "pse_cois pm c' cl' acc")
    case (Inl err)
    then show ?thesis by (cases err) (simp add: e)
  next
    case (Inr acc')
    have "(c, cl) \<noteq> (c', cl')"
    proof
      assume "(c, cl) = (c', cl')"
      moreover from Cons.prems(3) have "map_of pm c = None"
        by (simp add: map_of_eq_None_iff)
      ultimately show False
        using Inr Cons.prems(2,4) pse_cois_no_entry [of pm c cl acc] by simp
    qed
    with Cons.prems(1) e have "(c, cl) \<in> set um" by auto
    then show ?thesis using Inr Cons.IH Cons.prems(2,3,4) by (simp add: e)
  qed
qed

text \<open>
  Claim C4. For every unit-rendering target, unit map and pattern assignment (a
  pattern mapping with an entry for every cluster of the unit map that has a COI, as
  \<^verbatim>\<open>patternsToCOIs\<close> builds it), \<^verbatim>\<open>patternStyleExpression\<close> returns an expression that
  begins with \<^verbatim>\<open>"case"\<close>, then has, for every (cluster, COI, unit list) triple in the unit
  map's enumeration order, the membership predicate
  \<^verbatim>\<open>["in", ["get", "GEOID20"], ["literal", unit list]]\<close> immediately followed by the value
  of \<^verbatim>\<open>patternMatch[cluster][COI]\<close>, the COI's pattern, and ends with the single default
  \<^verbatim>\<open>"transparent"\<close>; the same expression is set as the target's \<^verbatim>\<open>"fill-pattern"\<close> paint
  property, and nothing else is.
\<close>

theorem patternStyleExpression_case:
  assumes "\<forall>e \<in> set unitMap. snd e \<noteq> [] \<longrightarrow> fst e \<in> fst ` set patternMatch"
  shows "\<exists>expression.
           patternStyleExpression units unitMap patternMatch =
             Inr (expression, units\<lparr>paint_calls := paint_calls units @ [(''fill-pattern'', expression)]\<rparr>) \<and>
           expression =
             JArr ([JStr ''case''] @
                   concat
                     (map (\<lambda>(c, coi, geoids).
                             [JArr [JStr ''in'', JArr [JStr ''get'', JStr ''GEOID20''],
                                    JArr [JStr ''literal'', JArr (map JStr geoids)]],
                              assigned patternMatch c coi])
                        (triples_of unitMap)) @
                   [JStr ''transparent'']) \<and>
           (\<forall>c coi pattern. pattern_of patternMatch (c, coi) = Some pattern \<longrightarrow>
              assigned patternMatch c coi = pattern)"
proof -
  have "\<forall>c coi pattern. pattern_of patternMatch (c, coi) = Some pattern \<longrightarrow>
      assigned patternMatch c coi = pattern"
    by (auto simp: pattern_of_def assigned_def split: option.splits)
  then show ?thesis
    using pse_clusters_body [OF assms, of "[JStr ''case'']"]
    by (simp add: patternStyleExpression_def setPaintProperty_def case_body_def Let_def)
qed

theorem patternStyleExpression_case_witness:
  "patternStyleExpression \<lparr>layer_type = ''fill'', paint_calls = []\<rparr> unitMap_AB
     [(''A'', [(''Alpha'', JStr ''p1''), (''Beta'', JStr ''p2'')]), (''B'', [(''Gamma'', JStr ''p3'')])] =
   Inr (JArr [JStr ''case'',
              JArr [JStr ''in'', JArr [JStr ''get'', JStr ''GEOID20''],
                    JArr [JStr ''literal'', JArr [JStr ''unit1'', JStr ''unit2'']]],
              JStr ''p1'',
              JArr [JStr ''in'', JArr [JStr ''get'', JStr ''GEOID20''],
                    JArr [JStr ''literal'', JArr [JStr ''unit2'']]],
              JStr ''p2'',
              JArr [JStr ''in'', JArr [JStr ''get'', JStr ''GEOID20''],
                    JArr [JStr ''literal'', JArr [JStr ''unit3'']]],
              JStr ''p3'',
              JStr ''transparent''],
        \<lparr>layer_type = ''fill'',
         paint_calls =
           [(''fill-pattern'',
             JArr [JStr ''case'',
                   JArr [JStr ''in'', JArr [JStr ''get'', JStr ''GEOID20''],
                         JArr [JStr ''literal'', JArr [JStr ''unit1'', JStr ''unit2'']]],
                   JStr ''p1'',
                   JArr [JStr ''in'', JArr [JStr ''get'', JStr ''GEOID20''],
                         JArr [JStr ''literal'', JArr [JStr ''unit2'']]],
                   JStr ''p2'',
                   JArr [JStr ''in'', JArr [JStr ''get'', JStr ''GEOID20''],
                         JArr [JStr ''literal'', JArr [JStr ''unit3'']]],
                   JStr ''p3'',
                   JStr ''transparent''])]\<rparr>)"
proof -
  let ?pm = "[(''A'', [(''Alpha'', JStr ''p1''), (''Beta'', JStr ''p2'')]), (''B'', [(''Gamma'', JStr ''p3'')])]"
  have h: "\<forall>e \<in> set unitMap_AB. snd e \<noteq> [] \<longrightarrow> fst e \<in> fst ` set ?pm"
    by (simp add: unitMap_AB_def)
  from patternStyleExpression_case [OF h, of "\<lparr>layer_type = ''fill'', paint_calls = []\<rparr>"]
  show ?thesis by (simp add: triples_of_def assigned_def unitMap_AB_def)
qed

lemma patternStyleExpression_throws:
  "(c, cl) \<in> set unitMap \<Longrightarrow> cl \<noteq> [] \<Longrightarrow> c \<notin> fst ` set patternMatch \<Longrightarrow>
   c \<notin> set proto_names \<Longrightarrow> patternStyleExpression units unitMap patternMatch = Inl TypeError"
  by (simp add: patternStyleExpression_def pse_clusters_throws)

lemma patternsToCOIs_covers: "fst ` set unitMap \<subseteq> fst ` set (fst (patternsToCOIs unitMap patterns))"
  by (simp add: patternsToCOIs_def keys_patternsToCOIs_loop)

lemma replace_absent: "\<not> sublist pat s \<Longrightarrow> replace pat rep s = s"
proof (induction s)
  case Nil
  then show ?case by auto
next
  case (Cons c cs)
  have "take (length pat) (c # cs) \<noteq> pat"
  proof
    assume "take (length pat) (c # cs) = pat"
    then have "prefix pat (c # cs)" by (metis take_is_prefix)
    with Cons.prems show False by auto
  qed
  moreover from Cons.prems have "\<not> sublist pat cs" by (simp add: sublist_Cons_right)
  ultimately show ?case using Cons.IH by simp
qed

lemma replace_first:
  assumes "pat \<noteq> []" and "\<not> sublist pat (a @ butlast pat)"
  shows "replace pat rep (a @ pat @ b) = a @ rep @ b"
  using assms(2)
proof (induction a)
  case Nil
  from assms(1) obtain c cs where pat: "pat = c # cs" by (cases pat) auto
  show ?case by (simp add: pat)
next
  case (Cons x a)
  have "take (length pat) (x # a @ pat @ b) \<noteq> pat"
  proof
    assume eq: "take (length pat) (x # a @ pat @ b) = pat"
    have "x # a @ pat @ b = (x # a @ butlast pat) @ ([last pat] @ b)"
      using assms(1) by simp
    moreover have "length pat \<le> length (x # a @ butlast pat)" by simp
    ultimately have "take (length pat) (x # a @ pat @ b) = take (length pat) (x # a @ butlast pat)"
      by (metis append_Nil2 diff_is_0_eq' take_0 take_append)
    with eq have "prefix pat (x # a @ butlast pat)" by (metis take_is_prefix)
    with Cons.prems show False by auto
  qed
  moreover from Cons.prems have "\<not> sublist pat (a @ butlast pat)"
    by (simp add: sublist_Cons_right)
  ultimately show ?case using Cons.IH by simp
qed

text \<open>
  Claim C8. For every unit-rendering target, identifier list and opacity (one third
  when the argument is \<^verbatim>\<open>undefined\<close>), \<^verbatim>\<open>opacityStyleExpression\<close> builds the two-branch
  conditional \<^verbatim>\<open>["case", ["in", ["get", "GEOID20"], ["literal", geoids]], 0, opacity]\<close>,
  value 0 for a member of the list and the passed opacity otherwise, and sets it as the
  paint property named by the target's type, with the first \<^verbatim>\<open>"symbol"\<close> in it replaced
  by \<^verbatim>\<open>"icon"\<close>, followed by \<^verbatim>\<open>"-opacity"\<close>.
\<close>

theorem opacityStyleExpression_paint:
  "opacityStyleExpression units geoids opacity =
     units\<lparr>paint_calls := paint_calls units @
       [(replace ''symbol'' ''icon'' (layer_type units) @ ''-opacity'',
         JArr [JStr ''case'',
               JArr [JStr ''in'', JArr [JStr ''get'', JStr ''GEOID20''], JArr [JStr ''literal'', JArr (map JStr geoids)]],
               JNum 0,
               if opacity = JUndefined then JNum (1 / 3) else opacity])]\<rparr> \<and>
   (layer_type units = ''symbol'' \<longrightarrow> replace ''symbol'' ''icon'' (layer_type units) @ ''-opacity'' = ''icon-opacity'') \<and>
   (\<not> sublist ''symbol'' (layer_type units) \<longrightarrow>
      replace ''symbol'' ''icon'' (layer_type units) @ ''-opacity'' = layer_type units @ ''-opacity'') \<and>
   (\<forall>a b. layer_type units = a @ ''symbol'' @ b \<and> \<not> sublist ''symbol'' (a @ ''symbo'') \<longrightarrow>
      replace ''symbol'' ''icon'' (layer_type units) @ ''-opacity'' = a @ ''icon'' @ b @ ''-opacity'')"
proof (intro conjI allI impI)
  show "opacityStyleExpression units geoids opacity =
     units\<lparr>paint_calls := paint_calls units @
       [(replace ''symbol'' ''icon'' (layer_type units) @ ''-opacity'',
         JArr [JStr ''case'',
               JArr [JStr ''in'', JArr [JStr ''get'', JStr ''GEOID20''], JArr [JStr ''literal'', JArr (map JStr geoids)]],
               JNum 0,
               if opacity = JUndefined then JNum (1 / 3) else opacity])]\<rparr>"
    by (simp add: opacityStyleExpression_def setPaintProperty_def membership_def Let_def)
next
  assume "layer_type units = ''symbol''"
  then show "replace ''symbol'' ''icon'' (layer_type units) @ ''-opacity'' = ''icon-opacity''"
    by simp
next
  assume "\<not> sublist ''symbol'' (layer_type units)"
  then show "replace ''symbol'' ''icon'' (layer_type units) @ ''-opacity'' = layer_type units @ ''-opacity''"
    by (simp add: replace_absent)
next
  fix a b
  assume h: "layer_type units = a @ ''symbol'' @ b \<and> \<not> sublist ''symbol'' (a @ ''symbo'')"
  then have "\<not> sublist ''symbol'' (a @ butlast ''symbol'')" by simp
  then have "replace ''symbol'' ''icon'' (a @ ''symbol'' @ b) = a @ ''icon'' @ b"
    by (intro replace_first) simp_all
  with h show "replace ''symbol'' ''icon'' (layer_type units) @ ''-opacity'' = a @ ''icon'' @ b @ ''-opacity''"
    by simp
qed

theorem opacityStyleExpression_paint_witness:
  "opacityStyleExpression \<lparr>layer_type = ''symbol'', paint_calls = []\<rparr> [''unit1'', ''unit2''] JUndefined =
     \<lparr>layer_type = ''symbol'',
      paint_calls =
        [(''icon-opacity'',
          JArr [JStr ''case'',
                JArr [JStr ''in'', JArr [JStr ''get'', JStr ''GEOID20''],
                      JArr [JStr ''literal'', JArr [JStr ''unit1'', JStr ''unit2'']]],
                JNum 0, JNum (1 / 3)])]\<rparr> \<and>
   opacityStyleExpression \<lparr>layer_type = ''fill'', paint_calls = []\<rparr> [''unit1''] (JNum (1 / 2)) =
     \<lparr>layer_type = ''fill'',
      paint_calls =
        [(''fill-opacity'',
          JArr [JStr ''case'',
                JArr [JStr ''in'', JArr [JStr ''get'', JStr ''GEOID20''],
                      JArr [JStr ''literal'', JArr [JStr ''unit1'']]],
                JNum 0, JNum (1 / 2)])]\<rparr>"
  using opacityStyleExpression_paint [of "\<lparr>layer_type = ''symbol'', paint_calls = []\<rparr>" "[''unit1'', ''unit2'']" JUndefined]
    opacityStyleExpression_paint [of "\<lparr>layer_type = ''fill'', paint_calls = []\<rparr>" "[''unit1'']" "JNum (1 / 2)"]
  by simp

section \<open>The style compiler on a store\<close>

lemma those_map_iff: "those (map f xs) = Some ys \<longleftrightarrow> list_all2 (\<lambda>x y. f x = Some y) xs ys"
  by (induction xs arbitrary: ys) (auto simp: list_all2_Cons1 split: option.splits)

lemma lookup_Some_less: "lookup h a = Some ob \<Longrightarrow> a < length h"
  by (simp add: lookup_def split: if_splits)

lemma lookup_append: "lookup h a = Some ob \<Longrightarrow> lookup (h @ ext) a = Some ob"
  by (simp add: lookup_def nth_append split: if_splits)

lemma lookup_new: "lookup (h @ ob # ext) (length h) = Some ob"
  by (simp add: lookup_def)

lemma lookup_update_other: "a \<noteq> e \<Longrightarrow> lookup (h[e := x]) a = lookup h a"
  by (simp add: lookup_def)

lemma lookup_update_same: "e < length h \<Longrightarrow> lookup (h[e := x]) e = Some x"
  by (simp add: lookup_def)

lemma read_val_prim: "prim_of v = Some j \<Longrightarrow> read_val n h v = Some j"
  by (cases v) (simp_all add: prim_of_def)

lemma read_val_append: "read_val n h v = Some j \<Longrightarrow> read_val n (h @ ext) v = Some j"
proof (induction n arbitrary: v j)
  case 0
  then show ?case by (cases v) simp_all
next
  case (Suc n)
  show ?case
  proof (cases v)
    case (HRef a)
    with Suc.prems obtain xs js where xs: "lookup h a = Some (HArray xs)"
      and js: "those (map (read_val n h) xs) = Some js" and j: "j = JArr js"
      by (auto split: option.splits hobj.splits)
    from js have "list_all2 (\<lambda>x y. read_val n h x = Some y) xs js" by (simp add: those_map_iff)
    then have "list_all2 (\<lambda>x y. read_val n (h @ ext) x = Some y) xs js"
      by (rule list_all2_mono) (rule Suc.IH)
    then have "those (map (read_val n (h @ ext)) xs) = Some js" by (simp add: those_map_iff)
    then show ?thesis using lookup_append [OF xs, of ext] by (simp add: HRef j)
  qed (use Suc.prems in simp_all)
qed

lemma read_val_unhide: "read_val n (h[e := HObject ob]) v = Some j \<Longrightarrow> read_val n h v = Some j"
proof (induction n arbitrary: v j)
  case 0
  then show ?case by (cases v) simp_all
next
  case (Suc n)
  show ?case
  proof (cases v)
    case (HRef a)
    with Suc.prems obtain xs js where xs: "lookup (h[e := HObject ob]) a = Some (HArray xs)"
      and js: "those (map (read_val n (h[e := HObject ob])) xs) = Some js" and j: "j = JArr js"
      by (auto split: option.splits hobj.splits)
    from xs have xs': "lookup h a = Some (HArray xs)"
      by (cases "a = e") (auto simp: lookup_def split: if_splits)
    from js have "list_all2 (\<lambda>x y. read_val n (h[e := HObject ob]) x = Some y) xs js"
      by (simp add: those_map_iff)
    then have "list_all2 (\<lambda>x y. read_val n h x = Some y) xs js"
      by (rule list_all2_mono) (rule Suc.IH)
    then have "those (map (read_val n h) xs) = Some js" by (simp add: those_map_iff)
    then show ?thesis using xs' by (simp add: HRef j)
  qed (use Suc.prems in simp_all)
qed

lemma read_strings_append: "read_strings h v = Some geo \<Longrightarrow> read_strings (h @ ext) v = Some geo"
  by (auto simp: read_strings_def lookup_append split: hval.splits option.splits hobj.splits)

lemma read_strings_read_val:
  assumes "read_strings h v = Some geo"
  shows "read_val (Suc n) h v = Some (JArr (map JStr geo))"
proof -
  from assms obtain a xs where v: "v = HRef a" and xs: "lookup h a = Some (HArray xs)"
    and geo: "those (map str_of xs) = Some geo"
    by (auto simp: read_strings_def split: hval.splits option.splits hobj.splits)
  from geo have "list_all2 (\<lambda>x y. str_of x = Some y) xs geo" by (simp add: those_map_iff)
  then have "list_all2 (\<lambda>x y. read_val n h x = Some (JStr y)) xs geo"
    by (rule list_all2_mono) (auto simp: str_of_def split: hval.splits)
  then have "list_all2 (\<lambda>x y. read_val n h x = Some y) xs (map JStr geo)"
    by (simp add: list_all2_map2)
  then have "those (map (read_val n h) xs) = Some (map JStr geo)" by (simp add: those_map_iff)
  then show ?thesis using xs by (simp add: v)
qed

lemma read_obj_Some:
  assumes "read_obj f h v = Some ob'"
  obtains a ob where "v = HRef a" and "lookup h a = Some (HObject ob)"
    and "list_all2 (\<lambda>p q. fst p = fst q \<and> f (snd p) = Some (snd q)) ob ob'"
proof -
  from assms obtain a ob where v: "v = HRef a" and ob: "lookup h a = Some (HObject ob)"
    and r: "those (map (\<lambda>(k, x). map_option (Pair k) (f x)) ob) = Some ob'"
    by (auto simp: read_obj_def split: hval.splits option.splits hobj.splits)
  from r have "list_all2 (\<lambda>p q. (case p of (k, x) \<Rightarrow> map_option (Pair k) (f x)) = Some q) ob ob'"
    by (simp add: those_map_iff)
  then have "list_all2 (\<lambda>p q. fst p = fst q \<and> f (snd p) = Some (snd q)) ob ob'"
    by (rule list_all2_mono) auto
  with v ob show ?thesis by (rule that)
qed

lemma read_obj_intro:
  assumes "lookup h a = Some (HObject ob)"
    and "list_all2 (\<lambda>p q. fst p = fst q \<and> f (snd p) = Some (snd q)) ob ob'"
  shows "read_obj f h (HRef a) = Some ob'"
proof -
  from assms(2) have "list_all2 (\<lambda>p q. (case p of (k, x) \<Rightarrow> map_option (Pair k) (f x)) = Some q) ob ob'"
    by (rule list_all2_mono) auto
  then show ?thesis using assms(1) by (simp add: read_obj_def those_map_iff)
qed

lemma read_obj_append:
  assumes "read_obj f h v = Some ob'" and "\<And>x y. f x = Some y \<Longrightarrow> g x = Some y"
  shows "read_obj g (h @ ext) v = Some ob'"
proof -
  from assms(1) obtain a ob where v: "v = HRef a" and ob: "lookup h a = Some (HObject ob)"
    and r: "list_all2 (\<lambda>p q. fst p = fst q \<and> f (snd p) = Some (snd q)) ob ob'"
    by (rule read_obj_Some)
  from r have "list_all2 (\<lambda>p q. fst p = fst q \<and> g (snd p) = Some (snd q)) ob ob'"
    by (rule list_all2_mono) (auto intro: assms(2))
  then show ?thesis unfolding v using lookup_append [OF ob] by (intro read_obj_intro)
qed

lemma read_unitMap_append: "read_unitMap h v = Some um \<Longrightarrow> read_unitMap (h @ ext) v = Some um"
  unfolding read_unitMap_def
  by (erule read_obj_append) (erule read_obj_append, erule read_strings_append)

lemma read_patternMatch_append:
  "read_patternMatch h v = Some pm \<Longrightarrow> read_patternMatch (h @ ext) v = Some pm"
  unfolding read_patternMatch_def
  by (erule read_obj_append) (erule read_obj_append, assumption)

lemma map_of_rel:
  "list_all2 (\<lambda>p q. fst p = fst q \<and> R (snd p) (snd q)) xs ys \<Longrightarrow> rel_option R (map_of xs k) (map_of ys k)"
  by (induction xs ys rule: list_all2_induct) auto

lemma get_pattern_store_refines:
  assumes pm: "read_patternMatch base pmv = Some pm" and s: "objects s = base @ ext"
  shows "case get_pattern pm c coi of
           Inl err \<Rightarrow> get_pattern_store s pmv c coi = Some (Inl err)
         | Inr j \<Rightarrow> (\<exists>v. get_pattern_store s pmv c coi = Some (Inr v) \<and> prim_of v = Some j)"
proof -
  from pm obtain pa po where pmv: "pmv = HRef pa" and po: "lookup base pa = Some (HObject po)"
    and rel: "list_all2 (\<lambda>p q. fst p = fst q \<and> read_obj prim_of base (snd p) = Some (snd q)) po pm"
    unfolding read_patternMatch_def by (rule read_obj_Some)
  have po': "lookup (objects s) pa = Some (HObject po)" using lookup_append [OF po] s by simp
  have r: "rel_option (\<lambda>x m. read_obj prim_of base x = Some m) (map_of po c) (map_of pm c)"
    using rel by (rule map_of_rel)
  show ?thesis
  proof (cases "map_of pm c")
    case None
    with r have "map_of po c = None" by (cases "map_of po c") simp_all
    with None po' show ?thesis
      by (simp add: get_pattern_def get_pattern_store_def get_prop_def pmv prim_of_def)
  next
    case (Some m)
    with r obtain x where x: "map_of po c = Some x" and m: "read_obj prim_of base x = Some m"
      by (cases "map_of po c") simp_all
    from m obtain ma mo where xa: "x = HRef ma" and mo: "lookup base ma = Some (HObject mo)"
      and rel2: "list_all2 (\<lambda>p q. fst p = fst q \<and> prim_of (snd p) = Some (snd q)) mo m"
      by (rule read_obj_Some)
    have mo': "lookup (objects s) ma = Some (HObject mo)" using lookup_append [OF mo] s by simp
    have r2: "rel_option (\<lambda>x j. prim_of x = Some j) (map_of mo coi) (map_of m coi)"
      using rel2 by (rule map_of_rel)
    have "get_pattern_store s pmv c coi =
            Some (Inr (case map_of mo coi of Some y \<Rightarrow> y
                       | None \<Rightarrow> if coi \<in> set proto_names then HProto [coi] else HUndefined))"
      using po' mo' x by (simp add: get_pattern_store_def get_prop_def pmv xa)
    moreover have "prim_of (case map_of mo coi of Some y \<Rightarrow> y
                       | None \<Rightarrow> if coi \<in> set proto_names then HProto [coi] else HUndefined) =
                   Some (obj_get m coi)"
      using r2 by (cases "map_of mo coi"; cases "map_of m coi") (simp_all add: obj_get_def prim_of_def)
    ultimately show ?thesis using Some by (simp add: get_pattern_def)
  qed
qed

lemma update_base_append:
  "length base \<le> e \<Longrightarrow> (base @ ext)[e := x] = base @ ext[e - length base := x]"
  by (simp add: list_update_append)

lemma elems_read_step:
  assumes g: "read_strings base g = Some geo" and s: "h = base @ ext" and e: "length base \<le> e"
    and el: "e < length h" and rd: "elems_read h e xs acc" and v: "prim_of v = Some j"
  shows "elems_read
           ((h @ [HArray [HStr ''get'', HStr ''GEOID20''], HArray [HStr ''literal'', g],
                  HArray [HStr ''in'', HRef (length h), HRef (Suc (length h))]])
              [e := HArray ys])
           e (xs @ [HRef (Suc (Suc (length h))), v]) (acc @ [membership geo, j])"
proof -
  let ?G = "HArray [HStr ''get'', HStr ''GEOID20'']"
  let ?L = "HArray [HStr ''literal'', g]"
  let ?S = "HArray [HStr ''in'', HRef (length h), HRef (Suc (length h))]"
  let ?H = "h[e := HObject []]"
  let ?H' = "?H @ [?G, ?L, ?S]"
  have H': "((h @ [?G, ?L, ?S])[e := HArray ys])[e := HObject []] = ?H'"
    using el by (simp add: list_update_append)
  have len: "length ?H = length h" by simp
  have old: "list_all2 (\<lambda>v j. read_val 3 ?H' v = Some j) xs acc"
    using rd unfolding elems_read_def by (rule list_all2_mono) (rule read_val_append)
  have "?H = base @ ext[e - length base := HObject []]"
    using e by (simp add: s update_base_append)
  then have "?H' = base @ (ext[e - length base := HObject []] @ [?G, ?L, ?S])" by simp
  then have "read_strings ?H' g = Some geo" using read_strings_append [OF g] by metis
  then have geo: "read_val (Suc 0) ?H' g = Some (JArr (map JStr geo))" by (rule read_strings_read_val)
  have lG: "lookup ?H' (length h) = Some ?G"
    using lookup_new [of ?H ?G "[?L, ?S]"] by simp
  have lL: "lookup ?H' (Suc (length h)) = Some ?L"
    using lookup_new [of "?H @ [?G]" ?L "[?S]"] by simp
  have lS: "lookup ?H' (Suc (Suc (length h))) = Some ?S"
    using lookup_new [of "?H @ [?G, ?L]" ?S "[]"] by simp
  have "read_val (Suc (Suc (Suc 0))) ?H' (HRef (Suc (Suc (length h)))) = Some (membership geo)"
    by (simp add: lG lL lS geo membership_def)
  then have new: "read_val 3 ?H' (HRef (Suc (Suc (length h)))) = Some (membership geo)"
    by (simp add: numeral_3_eq_3)
  have "read_val 3 ?H' v = Some j" using v by (rule read_val_prim)
  with old new show ?thesis
    unfolding elems_read_def H' by (simp add: list_all2_appendI)
qed

lemma pse_cois_store_refines:
  assumes "list_all2 (\<lambda>p q. fst p = fst q \<and> read_strings base (snd p) = Some (snd q)) cois cl"
    and "read_patternMatch base pmv = Some pm"
    and "objects s = base @ ext" and "length base \<le> e"
    and "lookup (objects s) e = Some (HArray xs)"
    and "elems_read (objects s) e xs acc"
  shows "\<exists>r s' ext'. pse_cois_store e pmv c cois s = Some (r, s') \<and> objects s' = base @ ext' \<and>
           setPaintProperty_calls s' = setPaintProperty_calls s \<and>
           (case pse_cois pm c cl acc of
              Inl err \<Rightarrow> r = Inl err
            | Inr acc' \<Rightarrow> r = Inr () \<and>
                (\<exists>xs'. lookup (objects s') e = Some (HArray xs') \<and> elems_read (objects s') e xs' acc'))"
  using assms
proof (induction cois cl arbitrary: s ext xs acc rule: list_all2_induct)
  case Nil
  then show ?case by simp
next
  case (Cons p cois q cl)
  obtain coi g where p: "p = (coi, g)" by (cases p)
  obtain coi' geo where q: "q = (coi', geo)" by (cases q)
  from Cons.hyps(1) p q have coi': "coi' = coi" and g: "read_strings base g = Some geo" by simp_all
  let ?h = "objects s"
  let ?cells = "[HArray [HStr ''get'', HStr ''GEOID20''], HArray [HStr ''literal'', g],
                 HArray [HStr ''in'', HRef (length ?h), HRef (Suc (length ?h))]]"
  let ?s3 = "s\<lparr>objects := ?h @ ?cells\<rparr>"
  have s3: "objects ?s3 = base @ (ext @ ?cells)" using Cons.prems(2) by simp
  have el: "e < length ?h" using Cons.prems(4) by (rule lookup_Some_less)
  have unfold: "pse_cois_store e pmv c (p # cois) s =
      (case get_pattern_store ?s3 pmv c coi of
         None \<Rightarrow> None
       | Some (Inl err) \<Rightarrow> Some (Inl err, ?s3)
       | Some (Inr pattern) \<Rightarrow>
           (case array_push e [HRef (Suc (Suc (length ?h))), pattern] ?s3 of
              None \<Rightarrow> None
            | Some s4 \<Rightarrow> pse_cois_store e pmv c cois s4))"
    by (simp add: p alloc_def cong del: option.case_cong_weak sum.case_cong_weak)
  show ?case
  proof (cases "get_pattern pm c coi")
    case (Inl err)
    then have "get_pattern_store ?s3 pmv c coi = Some (Inl err)"
      using get_pattern_store_refines [OF Cons.prems(1) s3, of c coi] by simp
    then show ?thesis using Inl s3 by (simp add: unfold q coi')
  next
    case (Inr j)
    then obtain v where gv: "get_pattern_store ?s3 pmv c coi = Some (Inr v)" and v: "prim_of v = Some j"
      using get_pattern_store_refines [OF Cons.prems(1) s3, of c coi] by auto
    let ?xs' = "xs @ [HRef (Suc (Suc (length ?h))), v]"
    let ?s4 = "?s3\<lparr>objects := (?h @ ?cells)[e := HArray ?xs']\<rparr>"
    have le: "lookup (?h @ ?cells) e = Some (HArray xs)" using Cons.prems(4) by (rule lookup_append)
    then have array_push: "array_push e [HRef (Suc (Suc (length ?h))), v] ?s3 = Some ?s4"
      by (simp add: array_push_def)
    have s4: "objects ?s4 = base @ (ext @ ?cells)[e - length base := HArray ?xs']"
      using Cons.prems(2,3) update_base_append [of base e "ext @ ?cells"] by simp
    have l4: "lookup (objects ?s4) e = Some (HArray ?xs')"
      using el by (simp add: lookup_def)
    have rd4: "elems_read (objects ?s4) e ?xs' (acc @ [membership geo, j])"
      using elems_read_step [OF g Cons.prems(2) Cons.prems(3) el Cons.prems(5) v] by simp
    from Cons.IH [OF Cons.prems(1) s4 Cons.prems(3) l4 rd4]
    show ?thesis using Inr gv array_push by (simp add: unfold q coi')
  qed
qed

lemma read_val_Suc_array:
  "lookup h a = Some (HArray xs) \<Longrightarrow> those (map (read_val n h) xs) = Some js \<Longrightarrow>
   read_val (Suc n) h (HRef a) = Some (JArr js)"
  by simp

lemma read_expr_array:
  assumes "lookup h a = Some (HArray xs)" and "those (map (read_val 3 h) xs) = Some js"
  shows "read_expr h a = Some (JArr js)"
  using read_val_Suc_array [OF assms] by (simp add: read_expr_def)

lemma pse_clusters_store_refines:
  assumes "list_all2 (\<lambda>p q. fst p = fst q \<and> read_obj (read_strings base) base (snd p) = Some (snd q)) clusters um"
    and "read_patternMatch base pmv = Some pm"
    and "objects s = base @ ext" and "length base \<le> e"
    and "lookup (objects s) e = Some (HArray xs)"
    and "elems_read (objects s) e xs acc"
  shows "\<exists>r s' ext'. pse_clusters_store e pmv clusters s = Some (r, s') \<and> objects s' = base @ ext' \<and>
           setPaintProperty_calls s' = setPaintProperty_calls s \<and>
           (case pse_clusters pm um acc of
              Inl err \<Rightarrow> r = Inl err
            | Inr acc' \<Rightarrow> r = Inr () \<and>
                (\<exists>xs'. lookup (objects s') e = Some (HArray xs') \<and> elems_read (objects s') e xs' acc'))"
  using assms
proof (induction clusters um arbitrary: s ext xs acc rule: list_all2_induct)
  case Nil
  then show ?case by simp
next
  case (Cons p clusters q um)
  obtain c cv where p: "p = (c, cv)" by (cases p)
  obtain c' cl where q: "q = (c', cl)" by (cases q)
  from Cons.hyps(1) p q have c': "c' = c" and cv: "read_obj (read_strings base) base cv = Some cl"
    by simp_all
  from cv obtain ca cois where cva: "cv = HRef ca" and cois: "lookup base ca = Some (HObject cois)"
    and rel: "list_all2 (\<lambda>p q. fst p = fst q \<and> read_strings base (snd p) = Some (snd q)) cois cl"
    by (rule read_obj_Some)
  have "lookup (objects s) ca = Some (HObject cois)"
    using lookup_append [OF cois] Cons.prems(2) by simp
  then have en: "object_entries s cv = Some (Inr cois)" by (simp add: object_entries_def cva)
  from pse_cois_store_refines [OF rel Cons.prems(1,2,3,4,5), of c]
  obtain r s' ext' where run: "pse_cois_store e pmv c cois s = Some (r, s')"
    and s': "objects s' = base @ ext'"
    and calls: "setPaintProperty_calls s' = setPaintProperty_calls s"
    and res: "case pse_cois pm c cl acc of
                Inl err \<Rightarrow> r = Inl err
              | Inr acc' \<Rightarrow> r = Inr () \<and>
                  (\<exists>xs'. lookup (objects s') e = Some (HArray xs') \<and> elems_read (objects s') e xs' acc')"
    by blast
  show ?case
  proof (cases "pse_cois pm c cl acc")
    case (Inl err)
    with res have "r = Inl err" by simp
    then show ?thesis using Inl en run s' calls by (simp add: p q c')
  next
    case (Inr acc')
    with res obtain xs' where r: "r = Inr ()" and l': "lookup (objects s') e = Some (HArray xs')"
      and rd': "elems_read (objects s') e xs' acc'" by auto
    from Cons.IH [OF Cons.prems(1) s' Cons.prems(3) l' rd']
    show ?thesis using Inr en run r calls by (simp add: p q c')
  qed
qed

text \<open>The store model refines the model on values: it throws when that one does, and
  otherwise returns the address of a new array that reads as the expression of that one,
  logs the call of \<^verbatim>\<open>setPaintProperty\<close> with that address, and leaves every object of
  the store as it was.\<close>

lemma patternStyleExpression_store_refines:
  assumes um: "read_unitMap (objects s) umv = Some um"
    and pm: "read_patternMatch (objects s) pmv = Some pm"
  shows "\<exists>r s' ext. patternStyleExpression_store units umv pmv s = Some (r, s') \<and>
           objects s' = objects s @ ext \<and>
           (case pse_clusters pm um [JStr ''case''] of
              Inl err \<Rightarrow> r = Inl err \<and> setPaintProperty_calls s' = setPaintProperty_calls s
            | Inr body \<Rightarrow>
                r = Inr (length (objects s)) \<and>
                read_expr (objects s') (length (objects s)) = Some (JArr (body @ [JStr ''transparent''])) \<and>
                setPaintProperty_calls s' =
                  setPaintProperty_calls s @ [(units, ''fill-pattern'', HRef (length (objects s)))])"
proof -
  let ?base = "objects s"
  let ?e = "length ?base"
  let ?s1 = "s\<lparr>objects := ?base @ [HArray [HStr ''case'']]\<rparr>"
  from um obtain ua clusters where umv: "umv = HRef ua" and cl: "lookup ?base ua = Some (HObject clusters)"
    and rel: "list_all2 (\<lambda>p q. fst p = fst q \<and> read_obj (read_strings ?base) ?base (snd p) = Some (snd q)) clusters um"
    unfolding read_unitMap_def by (rule read_obj_Some)
  have en: "object_entries ?s1 umv = Some (Inr clusters)"
    using lookup_append [OF cl] by (simp add: object_entries_def umv)
  have s1: "objects ?s1 = ?base @ [HArray [HStr ''case'']]" by simp
  have l1: "lookup (objects ?s1) ?e = Some (HArray [HStr ''case''])" by (simp add: lookup_def)
  have rd1: "elems_read (objects ?s1) ?e [HStr ''case''] [JStr ''case'']" by (simp add: elems_read_def)
  have unfold: "patternStyleExpression_store units umv pmv s =
      (case pse_clusters_store ?e pmv clusters ?s1 of
         None \<Rightarrow> None
       | Some (Inl err, s2) \<Rightarrow> Some (Inl err, s2)
       | Some (Inr u, s2) \<Rightarrow>
           (case array_push ?e [HStr ''transparent''] s2 of
              None \<Rightarrow> None
            | Some s3 \<Rightarrow> Some (Inr ?e, setPaintProperty_store units ''fill-pattern'' (HRef ?e) s3)))"
    using en by (simp add: patternStyleExpression_store_def alloc_def)
  from pse_clusters_store_refines [OF rel pm s1 order_refl l1 rd1]
  obtain r s2 ext2 where run: "pse_clusters_store ?e pmv clusters ?s1 = Some (r, s2)"
    and s2: "objects s2 = ?base @ ext2"
    and calls: "setPaintProperty_calls s2 = setPaintProperty_calls ?s1"
    and res: "case pse_clusters pm um [JStr ''case''] of
                Inl err \<Rightarrow> r = Inl err
              | Inr acc' \<Rightarrow> r = Inr () \<and>
                  (\<exists>xs'. lookup (objects s2) ?e = Some (HArray xs') \<and> elems_read (objects s2) ?e xs' acc')"
    by blast
  show ?thesis
  proof (cases "pse_clusters pm um [JStr ''case'']")
    case (Inl err)
    with res have "r = Inl err" by simp
    then show ?thesis using Inl run s2 calls by (simp add: unfold)
  next
    case (Inr body)
    with res obtain xs' where r: "r = Inr ()" and l2: "lookup (objects s2) ?e = Some (HArray xs')"
      and rd2: "elems_read (objects s2) ?e xs' body" by auto
    let ?xs = "xs' @ [HStr ''transparent'']"
    let ?s3 = "s2\<lparr>objects := (objects s2)[?e := HArray ?xs]\<rparr>"
    have array_push: "array_push ?e [HStr ''transparent''] s2 = Some ?s3" using l2 by (simp add: array_push_def)
    have el: "?e < length (objects s2)" using l2 by (rule lookup_Some_less)
    have s3: "objects ?s3 = ?base @ ext2[0 := HArray ?xs]"
      using s2 update_base_append [of ?base ?e ext2] by simp
    have "list_all2 (\<lambda>v j. read_val 3 ((objects ?s3)[?e := HObject []]) v = Some j) xs' body"
      using rd2 by (simp add: elems_read_def)
    then have "list_all2 (\<lambda>v j. read_val 3 (objects ?s3) v = Some j) xs' body"
      by (rule list_all2_mono) (rule read_val_unhide)
    then have "list_all2 (\<lambda>v j. read_val 3 (objects ?s3) v = Some j) ?xs (body @ [JStr ''transparent''])"
      by (simp add: list_all2_appendI)
    then have "those (map (read_val 3 (objects ?s3)) ?xs) = Some (body @ [JStr ''transparent''])"
      by (simp only: those_map_iff)
    moreover have "lookup (objects ?s3) ?e = Some (HArray ?xs)" using el by (simp add: lookup_def)
    ultimately have rd: "read_expr (objects ?s3) ?e = Some (JArr (body @ [JStr ''transparent'']))"
      by (rule read_expr_array [rotated])
    show ?thesis
      using Inr run r array_push s3 calls rd by (simp add: unfold setPaintProperty_store_def)
  qed
qed

text \<open>
  Claim C9. Let two stores hold the same unit map and the same pattern assignment (the
  same keys in the same enumeration order, the same unit lists and patterns), at
  whatever addresses and whatever else the stores and the call logs hold. Then a call of
  \<^verbatim>\<open>patternStyleExpression\<close> in the one and a call in the other, on the same target, both
  throw a \<^verbatim>\<open>TypeError\<close> or both return; when they return, each returns the address of a new
  array, the two arrays read as the same expression, and each call adds to the calls of
  the target one \<^verbatim>\<open>"fill-pattern"\<close> call with its array. A call leaves every object that
  its store held as it was, so that the unit map and the pattern assignment read the
  same after it: a second call right after a first one is such a pair of calls. When the
  pattern assignment has an entry for every cluster of the unit map that has a COI, the
  calls return and the expression is \<^verbatim>\<open>"case"\<close>, then for every triple of the unit map the
  predicate \<^verbatim>\<open>["in", ["get", "GEOID20"], ["literal", unit list]]\<close> and the pattern, then
  \<^verbatim>\<open>"transparent"\<close>.
\<close>

theorem patternStyleExpression_deterministic:
  assumes "read_unitMap (objects s) unitMap = Some um"
    and "read_patternMatch (objects s) patternMatch = Some pm"
    and "read_unitMap (objects s') unitMap' = Some um"
    and "read_patternMatch (objects s') patternMatch' = Some pm"
  shows "\<exists>r t r' t'.
           patternStyleExpression_store units unitMap patternMatch s = Some (r, t) \<and>
           patternStyleExpression_store units unitMap' patternMatch' s' = Some (r', t') \<and>
           take (length (objects s)) (objects t) = objects s \<and>
           take (length (objects s')) (objects t') = objects s' \<and>
           read_unitMap (objects t) unitMap = Some um \<and>
           read_patternMatch (objects t) patternMatch = Some pm \<and>
           ((r = Inl TypeError \<and> r' = Inl TypeError \<and>
             setPaintProperty_calls t = setPaintProperty_calls s \<and>
             setPaintProperty_calls t' = setPaintProperty_calls s') \<or>
            (\<exists>expression.
               r = Inr (length (objects s)) \<and> r' = Inr (length (objects s')) \<and>
               read_expr (objects t) (length (objects s)) = Some expression \<and>
               read_expr (objects t') (length (objects s')) = Some expression \<and>
               setPaintProperty_calls t =
                 setPaintProperty_calls s @ [(units, ''fill-pattern'', HRef (length (objects s)))] \<and>
               setPaintProperty_calls t' =
                 setPaintProperty_calls s' @ [(units, ''fill-pattern'', HRef (length (objects s')))])) \<and>
           ((\<forall>e \<in> set um. snd e \<noteq> [] \<longrightarrow> fst e \<in> fst ` set pm) \<longrightarrow>
              r = Inr (length (objects s)) \<and>
              read_expr (objects t) (length (objects s)) =
                Some (JArr ([JStr ''case''] @
                      concat
                        (map (\<lambda>(c, coi, geoids).
                                [JArr [JStr ''in'', JArr [JStr ''get'', JStr ''GEOID20''],
                                       JArr [JStr ''literal'', JArr (map JStr geoids)]],
                                 assigned pm c coi])
                           (triples_of um)) @
                      [JStr ''transparent''])))"
proof -
  from patternStyleExpression_store_refines [OF assms(1,2), of units]
  obtain r t ext where run: "patternStyleExpression_store units unitMap patternMatch s = Some (r, t)"
    and t: "objects t = objects s @ ext"
    and res: "case pse_clusters pm um [JStr ''case''] of
                Inl err \<Rightarrow> r = Inl err \<and> setPaintProperty_calls t = setPaintProperty_calls s
              | Inr body \<Rightarrow>
                  r = Inr (length (objects s)) \<and>
                  read_expr (objects t) (length (objects s)) = Some (JArr (body @ [JStr ''transparent''])) \<and>
                  setPaintProperty_calls t =
                    setPaintProperty_calls s @ [(units, ''fill-pattern'', HRef (length (objects s)))]"
    by blast
  from patternStyleExpression_store_refines [OF assms(3,4), of units]
  obtain r' t' ext' where run': "patternStyleExpression_store units unitMap' patternMatch' s' = Some (r', t')"
    and t': "objects t' = objects s' @ ext'"
    and res': "case pse_clusters pm um [JStr ''case''] of
                Inl err \<Rightarrow> r' = Inl err \<and> setPaintProperty_calls t' = setPaintProperty_calls s'
              | Inr body \<Rightarrow>
                  r' = Inr (length (objects s')) \<and>
                  read_expr (objects t') (length (objects s')) = Some (JArr (body @ [JStr ''transparent''])) \<and>
                  setPaintProperty_calls t' =
                    setPaintProperty_calls s' @ [(units, ''fill-pattern'', HRef (length (objects s')))]"
    by blast
  have frame: "take (length (objects s)) (objects t) = objects s"
    "take (length (objects s')) (objects t') = objects s'"
    by (simp_all add: t t')
  have reads: "read_unitMap (objects t) unitMap = Some um"
    "read_patternMatch (objects t) patternMatch = Some pm"
    using read_unitMap_append [OF assms(1)] read_patternMatch_append [OF assms(2)] by (simp_all add: t)
  have same: "(r = Inl TypeError \<and> r' = Inl TypeError \<and>
             setPaintProperty_calls t = setPaintProperty_calls s \<and>
             setPaintProperty_calls t' = setPaintProperty_calls s') \<or>
            (\<exists>expression.
               r = Inr (length (objects s)) \<and> r' = Inr (length (objects s')) \<and>
               read_expr (objects t) (length (objects s)) = Some expression \<and>
               read_expr (objects t') (length (objects s')) = Some expression \<and>
               setPaintProperty_calls t =
                 setPaintProperty_calls s @ [(units, ''fill-pattern'', HRef (length (objects s)))] \<and>
               setPaintProperty_calls t' =
                 setPaintProperty_calls s' @ [(units, ''fill-pattern'', HRef (length (objects s')))])"
  proof (cases "pse_clusters pm um [JStr ''case'']")
    case (Inl err)
    then show ?thesis using res res' by (cases err) simp
  next
    case (Inr body)
    then show ?thesis using res res' by simp
  qed
  have pinned: "r = Inr (length (objects s)) \<and>
              read_expr (objects t) (length (objects s)) =
                Some (JArr ([JStr ''case''] @
                      concat
                        (map (\<lambda>(c, coi, geoids).
                                [JArr [JStr ''in'', JArr [JStr ''get'', JStr ''GEOID20''],
                                       JArr [JStr ''literal'', JArr (map JStr geoids)]],
                                 assigned pm c coi])
                           (triples_of um)) @
                      [JStr ''transparent'']))"
    if "\<forall>e \<in> set um. snd e \<noteq> [] \<longrightarrow> fst e \<in> fst ` set pm"
    using res pse_clusters_body [OF that, of "[JStr ''case'']"] by (simp add: case_body_def)
  from run run' frame reads same pinned show ?thesis by blast
qed

theorem patternStyleExpression_deterministic_witness:
  "\<exists>t t'.
     patternStyleExpression_store 0 (HRef 0) (HRef 6) store_AB = Some (Inr 9, t) \<and>
     patternStyleExpression_store 0 (HRef 0) (HRef 6) store_AB1 = Some (Inr 19, t') \<and>
     read_expr (objects t) 9 =
       Some (JArr [JStr ''case'',
                   JArr [JStr ''in'', JArr [JStr ''get'', JStr ''GEOID20''],
                         JArr [JStr ''literal'', JArr [JStr ''unit1'', JStr ''unit2'']]],
                   JStr ''p1'',
                   JArr [JStr ''in'', JArr [JStr ''get'', JStr ''GEOID20''],
                         JArr [JStr ''literal'', JArr [JStr ''unit2'']]],
                   JStr ''p2'',
                   JArr [JStr ''in'', JArr [JStr ''get'', JStr ''GEOID20''],
                         JArr [JStr ''literal'', JArr [JStr ''unit3'']]],
                   JStr ''p3'',
                   JStr ''transparent'']) \<and>
     read_expr (objects t') 19 = read_expr (objects t) 9 \<and>
     take 9 (objects t) = objects store_AB \<and>
     take 19 (objects t') = objects store_AB1 \<and>
     setPaintProperty_calls t' = [(0, ''fill-pattern'', HRef 9), (0, ''fill-pattern'', HRef 19)]"
proof -
  have l: "length (objects store_AB) = 9" "length (objects store_AB1) = 19"
    by (simp_all add: store_AB_def store_AB1_def)
  have h1: "read_unitMap (objects store_AB) (HRef 0) = Some unitMap_AB"
    by (simp add: read_unitMap_def read_obj_def read_strings_def str_of_def lookup_def store_AB_def
        unitMap_AB_def)
  have h2: "read_patternMatch (objects store_AB) (HRef 6) = Some patternMatch_AB"
    by (simp add: read_patternMatch_def read_obj_def prim_of_def lookup_def store_AB_def
        patternMatch_AB_def)
  have h3: "read_unitMap (objects store_AB1) (HRef 0) = Some unitMap_AB"
    by (simp add: read_unitMap_def read_obj_def read_strings_def str_of_def lookup_def store_AB_def
        store_AB1_def unitMap_AB_def)
  have h4: "read_patternMatch (objects store_AB1) (HRef 6) = Some patternMatch_AB"
    by (simp add: read_patternMatch_def read_obj_def prim_of_def lookup_def store_AB_def
        store_AB1_def patternMatch_AB_def)
  have cov: "\<forall>e \<in> set unitMap_AB. snd e \<noteq> [] \<longrightarrow> fst e \<in> fst ` set patternMatch_AB"
    by (simp add: unitMap_AB_def patternMatch_AB_def)
  have calls: "setPaintProperty_calls store_AB = []"
    "setPaintProperty_calls store_AB1 = [(0, ''fill-pattern'', HRef 9)]"
    by (simp_all add: store_AB_def store_AB1_def)
  from patternStyleExpression_deterministic [OF h1 h2 h3 h4, of 0]
  obtain r t r' t' where
    1: "patternStyleExpression_store 0 (HRef 0) (HRef 6) store_AB = Some (r, t)" and
    2: "patternStyleExpression_store 0 (HRef 0) (HRef 6) store_AB1 = Some (r', t')" and
    f: "take (length (objects store_AB)) (objects t) = objects store_AB"
       "take (length (objects store_AB1)) (objects t') = objects store_AB1" and
    d: "(r = Inl TypeError \<and> r' = Inl TypeError \<and>
         setPaintProperty_calls t = setPaintProperty_calls store_AB \<and>
         setPaintProperty_calls t' = setPaintProperty_calls store_AB1) \<or>
        (\<exists>expression.
           r = Inr (length (objects store_AB)) \<and> r' = Inr (length (objects store_AB1)) \<and>
           read_expr (objects t) (length (objects store_AB)) = Some expression \<and>
           read_expr (objects t') (length (objects store_AB1)) = Some expression \<and>
           setPaintProperty_calls t =
             setPaintProperty_calls store_AB @ [(0, ''fill-pattern'', HRef (length (objects store_AB)))] \<and>
           setPaintProperty_calls t' =
             setPaintProperty_calls store_AB1 @ [(0, ''fill-pattern'', HRef (length (objects store_AB1)))])" and
    p: "(\<forall>e \<in> set unitMap_AB. snd e \<noteq> [] \<longrightarrow> fst e \<in> fst ` set patternMatch_AB) \<longrightarrow>
          r = Inr (length (objects store_AB)) \<and>
          read_expr (objects t) (length (objects store_AB)) =
            Some (JArr ([JStr ''case''] @
                  concat
                    (map (\<lambda>(c, coi, geoids).
                            [JArr [JStr ''in'', JArr [JStr ''get'', JStr ''GEOID20''],
                                   JArr [JStr ''literal'', JArr (map JStr geoids)]],
                             assigned patternMatch_AB c coi])
                       (triples_of unitMap_AB)) @
                  [JStr ''transparent'']))"
    by blast
  from p cov have r: "r = Inr 9" by (simp add: l)
  from p cov have e: "read_expr (objects t) 9 =
       Some (JArr [JStr ''case'',
                   JArr [JStr ''in'', JArr [JStr ''get'', JStr ''GEOID20''],
                         JArr [JStr ''literal'', JArr [JStr ''unit1'', JStr ''unit2'']]],
                   JStr ''p1'',
                   JArr [JStr ''in'', JArr [JStr ''get'', JStr ''GEOID20''],
                         JArr [JStr ''literal'', JArr [JStr ''unit2'']]],
                   JStr ''p2'',
                   JArr [JStr ''in'', JArr [JStr ''get'', JStr ''GEOID20''],
                         JArr [JStr ''literal'', JArr [JStr ''unit3'']]],
                   JStr ''p3'',
                   JStr ''transparent''])"
    by (simp add: l triples_of_def assigned_def unitMap_AB_def patternMatch_AB_def)
  from d r have r': "r' = Inr 19" and e': "read_expr (objects t') 19 = read_expr (objects t) 9"
    and c': "setPaintProperty_calls t' = [(0, ''fill-pattern'', HRef 9), (0, ''fill-pattern'', HRef 19)]"
    by (auto simp: l calls)
  from 1 2 r r' e e' c' f show ?thesis by (simp add: l)
qed

text \<open>Two calls in a row: the first call leaves the unit map and the pattern assignment
  as they were, so the second call returns a second array, at another address, and
  after it both arrays read as the same expression.\<close>

lemma patternStyleExpression_store_twice:
  assumes um: "read_unitMap (objects s) umv = Some um"
    and pm: "read_patternMatch (objects s) pmv = Some pm"
    and r1: "patternStyleExpression_store units umv pmv s = Some (Inr e1, s1)"
  shows "\<exists>e2 s2 expression.
           patternStyleExpression_store units umv pmv s1 = Some (Inr e2, s2) \<and> e1 \<noteq> e2 \<and>
           read_expr (objects s1) e1 = Some expression \<and>
           read_expr (objects s2) e1 = Some expression \<and>
           read_expr (objects s2) e2 = Some expression \<and>
           take (length (objects s)) (objects s2) = objects s"
proof -
  from patternStyleExpression_store_refines [OF um pm, of units] r1
  obtain ext body where s1: "objects s1 = objects s @ ext"
    and body: "pse_clusters pm um [JStr ''case''] = Inr body"
    and e1: "e1 = length (objects s)"
    and rd1: "read_expr (objects s1) e1 = Some (JArr (body @ [JStr ''transparent'']))"
    by (cases "pse_clusters pm um [JStr ''case'']") auto
  have um1: "read_unitMap (objects s1) umv = Some um"
    using read_unitMap_append [OF um] by (simp add: s1)
  have pm1: "read_patternMatch (objects s1) pmv = Some pm"
    using read_patternMatch_append [OF pm] by (simp add: s1)
  from patternStyleExpression_store_refines [OF um1 pm1, of units] body
  obtain s2 ext2 where run2: "patternStyleExpression_store units umv pmv s1 = Some (Inr (length (objects s1)), s2)"
    and s2: "objects s2 = objects s1 @ ext2"
    and rd2: "read_expr (objects s2) (length (objects s1)) = Some (JArr (body @ [JStr ''transparent'']))"
    by auto
  have "e1 < length (objects s1)"
    using rd1 by (auto simp: read_expr_def eval_nat_numeral lookup_def split: if_splits option.splits)
  then have ne: "e1 \<noteq> length (objects s1)" by simp
  have rd12: "read_expr (objects s2) e1 = Some (JArr (body @ [JStr ''transparent'']))"
    using rd1 read_val_append [of 4 "objects s1" "HRef e1" _ ext2] by (simp add: read_expr_def s2)
  from run2 ne rd1 rd12 rd2 show ?thesis by (simp add: s1 s2)
qed

lemma store_AB_first_call:
  "patternStyleExpression_store 0 (HRef 0) (HRef 6) store_AB = Some (Inr 9, store_AB1)"
  by (simp add: patternStyleExpression_store_def alloc_def object_entries_def lookup_def array_push_def
      get_pattern_store_def get_prop_def setPaintProperty_store_def store_AB_def store_AB1_def)

section \<open>The asset loader\<close>

lemma fst_load_callback_pending:
  "fst (load_callback pattern error img (Pending, m)) =
     (if error \<noteq> None then Rejected (JStr ''transparent'') else Fulfilled (JStr pattern))"
  by (simp add: load_callback_def resolve_def reject_def)

lemma fst_load_callback_settled:
  "p \<noteq> Pending \<Longrightarrow> fst (load_callback pattern error img (p, m)) = p"
  by (cases p) (simp_all add: load_callback_def resolve_def reject_def)

lemma snd_load_callback: "snd (load_callback pattern error img s) = addImage pattern img (snd s)"
  by (simp add: load_callback_def Let_def)

lemma length_deliver: "length (fst (deliver L es i s)) = length (fst s)"
  by (simp add: deliver_def split_beta)

lemma length_fold_deliver: "length (fst (fold (deliver L es) sched s)) = length (fst s)"
  by (induction sched arbitrary: s) (simp_all add: length_deliver)

lemma deliver_nth:
  assumes "length (fst s) = length es" and "j < length es"
  shows "fst (deliver L es i s) ! j =
     (if j = i then fst (load_callback (fst (es ! i)) (fst (L (snd (es ! i)))) (snd (L (snd (es ! i)))) (fst s ! i, snd s))
      else fst s ! j)"
  using assms by (simp add: deliver_def split_beta)

lemma deliver_outcome:
  assumes "length (fst s) = length es" and "j < length es"
    and "fst s ! j = Pending \<or> fst s ! j = outcome L (es ! j)"
  shows "fst (deliver L es i s) ! j = (if j = i then outcome L (es ! j) else fst s ! j)"
proof (cases "j = i")
  case False
  then show ?thesis using assms by (simp add: deliver_nth)
next
  case True
  from assms(3) show ?thesis
  proof
    assume "fst s ! j = Pending"
    then show ?thesis using assms(1,2) True
      by (simp add: deliver_nth fst_load_callback_pending outcome_def)
  next
    assume o: "fst s ! j = outcome L (es ! j)"
    then have "fst s ! j \<noteq> Pending" by (simp add: outcome_def)
    then show ?thesis using assms(1,2) True o
      by (simp add: deliver_nth fst_load_callback_settled)
  qed
qed

lemma fold_deliver_outcome:
  assumes "length (fst s) = length es"
    and "\<forall>j < length es. fst s ! j = Pending \<or> fst s ! j = outcome L (es ! j)"
    and "j < length es"
  shows "fst (fold (deliver L es) sched s) ! j =
           (if j \<in> set sched then outcome L (es ! j) else fst s ! j)"
  using assms
proof (induction sched arbitrary: s)
  case Nil
  then show ?case by simp
next
  case (Cons i sched)
  let ?s = "deliver L es i s"
  have len: "length (fst ?s) = length es" using Cons.prems(1) by (simp add: length_deliver)
  have step: "fst ?s ! k = (if k = i then outcome L (es ! k) else fst s ! k)" if "k < length es" for k
    using Cons.prems(1,2) that by (intro deliver_outcome) simp_all
  then have inv: "\<forall>k < length es. fst ?s ! k = Pending \<or> fst ?s ! k = outcome L (es ! k)"
    using Cons.prems(2) by auto
  have "fst (fold (deliver L es) sched ?s) ! j =
          (if j \<in> set sched then outcome L (es ! j) else fst ?s ! j)"
    using len inv Cons.prems(3) by (rule Cons.IH)
  then show ?case using step [OF Cons.prems(3)] by auto
qed

lemma deliver_calls:
  "addImage_calls (snd (deliver L es i s)) =
     addImage_calls (snd s) @
     (if i < length es \<and> i < length (fst s) then [(fst (es ! i), snd (L (snd (es ! i))))] else [])"
  by (simp add: deliver_def split_beta snd_load_callback addImage_def)

lemma fold_deliver_calls:
  "length (fst s) = length es \<Longrightarrow>
   addImage_calls (snd (fold (deliver L es) sched s)) =
     addImage_calls (snd s) @
     map (\<lambda>i. (fst (es ! i), snd (L (snd (es ! i))))) (filter (\<lambda>i. i < length es) sched)"
  by (induction sched arbitrary: s) (simp_all add: deliver_calls length_deliver)

lemma loadPatterns_calls:
  "addImage_calls (snd (loadPatterns L completion m pm)) =
     addImage_calls m @
     map (\<lambda>i. (fst (pm ! i), snd (L (snd (pm ! i))))) (filter (\<lambda>i. i < length pm) completion)"
  by (simp add: loadPatterns_def Let_def fold_deliver_calls)

lemma loadPatterns_promises:
  assumes "\<forall>i < length pm. i \<in> set completion"
  shows "fst (fold (deliver L pm) completion (map (\<lambda>_. Pending) pm, m)) = map (outcome L) pm"
proof (rule nth_equalityI)
  show "length (fst (fold (deliver L pm) completion (map (\<lambda>_. Pending) pm, m))) = length (map (outcome L) pm)"
    by (simp add: length_fold_deliver)
next
  fix j
  assume "j < length (fst (fold (deliver L pm) completion (map (\<lambda>_. Pending) pm, m)))"
  then have j: "j < length pm" by (simp add: length_fold_deliver)
  have "fst (fold (deliver L pm) completion (map (\<lambda>_. Pending) pm, m)) ! j =
          (if j \<in> set completion then outcome L (pm ! j) else fst (map (\<lambda>_. Pending) pm, m) ! j)"
    using j by (intro fold_deliver_outcome) simp_all
  then show "fst (fold (deliver L pm) completion (map (\<lambda>_. Pending) pm, m)) ! j = map (outcome L) pm ! j"
    using assms j by simp
qed

lemma loadPatterns_settles:
  assumes "\<forall>i < length pm. i \<in> set completion"
  shows "fst (loadPatterns L completion m pm) = Some (map (\<lambda>entry. settled_result (outcome L entry)) pm)"
proof -
  have "list_all (\<lambda>p. p \<noteq> Pending) (map (outcome L) pm)"
    by (induction pm) (simp_all add: outcome_def)
  then show ?thesis
    by (simp add: loadPatterns_def Let_def loadPatterns_promises [OF assms] allSettled_def comp_def)
qed

lemma loadPatterns_pending:
  assumes "i < length pm" and "i \<notin> set completion"
  shows "fst (loadPatterns L completion m pm) = None"
proof -
  have "fst (fold (deliver L pm) completion (map (\<lambda>_. Pending) pm, m)) ! i =
          (if i \<in> set completion then outcome L (pm ! i) else fst (map (\<lambda>_. Pending) pm, m) ! i)"
    using assms(1) by (intro fold_deliver_outcome) simp_all
  then have "fst (fold (deliver L pm) completion (map (\<lambda>_. Pending) pm, m)) ! i = Pending"
    using assms by simp
  moreover have "i < length (fst (fold (deliver L pm) completion (map (\<lambda>_. Pending) pm, m)))"
    using assms(1) by (simp add: length_fold_deliver)
  ultimately have "\<not> list_all (\<lambda>p. p \<noteq> Pending) (fst (fold (deliver L pm) completion (map (\<lambda>_. Pending) pm, m)))"
    unfolding list_all_length by blast
  then show ?thesis by (simp add: loadPatterns_def Let_def allSettled_def)
qed

lemma asset_loader_values:
  assumes "\<forall>i < length pm. i \<in> set completion"
  shows "map_option resolvesToArray (fst (loadPatterns L completion m pm)) =
           Some (map (\<lambda>entry. if fst (L (snd entry)) \<noteq> None then JUndefined else JStr (fst entry)) pm)"
  by (simp add: loadPatterns_settles [OF assms] resolvesToArray_def comp_def outcome_def
      settled_result_def obj_get_def proto_names_def)

text \<open>
  Claim C1, on a catalog of three patterns of which the second fails to load. Every
  attempt settles and the result list has one entry per pattern in catalog order, the
  pattern name for each loaded pattern (lemma \<open>asset_loader_values\<close>); but the entry of
  the failed load is \<^verbatim>\<open>undefined\<close>, not the string \<^verbatim>\<open>"transparent"\<close>: the promise is
  rejected with the reason \<^verbatim>\<open>"transparent"\<close>, and \<^verbatim>\<open>resolvesToArray\<close> reads the property
  \<^verbatim>\<open>value\<close>, which the result of a rejected promise does not have.
\<close>

theorem asset_loader_failed_load_undefined:
  "map_option resolvesToArray
     (fst (loadPatterns loadImage_url2_fails [2, 0, 1] \<lparr>addImage_calls = []\<rparr> catalog3)) =
   Some [JStr ''p1'', JUndefined, JStr ''p3''] \<and>
   map_option resolvesToArray
     (fst (loadPatterns loadImage_url2_fails [2, 0, 1] \<lparr>addImage_calls = []\<rparr> catalog3)) \<noteq>
   Some [JStr ''p1'', JStr ''transparent'', JStr ''p3'']"
proof -
  have "\<forall>i < length catalog3. i \<in> set [2, 0, 1]"
    by (auto simp: catalog3_def less_Suc_eq)
  from asset_loader_values [OF this, of loadImage_url2_fails "\<lparr>addImage_calls = []\<rparr>"]
  have "map_option resolvesToArray
     (fst (loadPatterns loadImage_url2_fails [2, 0, 1] \<lparr>addImage_calls = []\<rparr> catalog3)) =
   Some [JStr ''p1'', JUndefined, JStr ''p3'']"
    by (simp add: catalog3_def loadImage_url2_fails_def)
  then show ?thesis by (simp only: option.inject list.inject jsval.distinct simp_thms not_False_eq_True)
qed

text \<open>
  Claim C10. In \<^verbatim>\<open>loadPatterns\<close>, when the load of a pattern reports an error, the
  callback does not stop after rejecting with \<^verbatim>\<open>"transparent"\<close>: it goes on to call
  \<^verbatim>\<open>map.addImage\<close> with the pattern name and the image it was given (absent on an
  error), and the later \<^verbatim>\<open>resolve\<close> leaves the rejected promise as it is. So the engine
  has received that \<^verbatim>\<open>addImage\<close> call for every failed pattern whose load has reported.
\<close>

theorem load_callback_error_addImage:
  "(error \<noteq> None \<longrightarrow>
      load_callback pattern error img (p, m) =
        (reject (JStr ''transparent'') p, m\<lparr>addImage_calls := addImage_calls m @ [(pattern, img)]\<rparr>)) \<and>
   (i \<in> set completion \<and> i < length patternMapping \<and> patternMapping ! i = (pattern, url) \<and>
    loadImage url = (error, img) \<and> error \<noteq> None \<longrightarrow>
      (pattern, img) \<in> set (addImage_calls (snd (loadPatterns loadImage completion m patternMapping))))"
proof (intro conjI impI)
  assume "error \<noteq> None"
  then show "load_callback pattern error img (p, m) =
        (reject (JStr ''transparent'') p, m\<lparr>addImage_calls := addImage_calls m @ [(pattern, img)]\<rparr>)"
    by (cases p) (simp_all add: load_callback_def resolve_def reject_def addImage_def)
next
  assume h: "i \<in> set completion \<and> i < length patternMapping \<and> patternMapping ! i = (pattern, url) \<and>
    loadImage url = (error, img) \<and> error \<noteq> None"
  then have "i \<in> set (filter (\<lambda>i. i < length patternMapping) completion)" by simp
  moreover from h have "(pattern, img) = (fst (patternMapping ! i), snd (loadImage (snd (patternMapping ! i))))"
    by simp
  ultimately have "(pattern, img) \<in>
      (\<lambda>i. (fst (patternMapping ! i), snd (loadImage (snd (patternMapping ! i))))) `
        set (filter (\<lambda>i. i < length patternMapping) completion)"
    by (rule image_eqI [rotated])
  then show "(pattern, img) \<in> set (addImage_calls (snd (loadPatterns loadImage completion m patternMapping)))"
    by (simp add: loadPatterns_calls)
qed

theorem load_callback_error_addImage_witness:
  "load_callback ''p2'' (Some ''404'') (None :: string option) (Pending, \<lparr>addImage_calls = []\<rparr>) =
     (Rejected (JStr ''transparent''), \<lparr>addImage_calls = [(''p2'', None)]\<rparr>) \<and>
   (''p2'', None) \<in> set (addImage_calls (snd (loadPatterns loadImage_url2_fails [2, 0, 1] \<lparr>addImage_calls = []\<rparr> catalog3)))"
proof -
  have h: "Suc 0 \<in> set [2, 0, 1] \<and> Suc 0 < length catalog3 \<and> catalog3 ! Suc 0 = (''p2'', ''url2'') \<and>
    loadImage_url2_fails ''url2'' = (Some ''404'', None) \<and> Some ''404'' \<noteq> None"
    by (simp add: catalog3_def loadImage_url2_fails_def)
  have e: "Some ''404'' \<noteq> None" by simp
  from load_callback_error_addImage
    [of "Some ''404''" "''p2''" None Pending "\<lparr>addImage_calls = []\<rparr>" "Suc 0" "[2, 0, 1]" catalog3
        "''url2''" loadImage_url2_fails] h e
  show ?thesis by (simp add: reject_def)
qed

section \<open>The pipeline\<close>

lemma set_insert_index: "set (insert_index n k v ob) = insert (k, v) (set ob)"
  by (induction ob) (auto split: option.splits if_splits)

lemma set_update_subset: "set (AList.update k v ob) \<subseteq> insert (k, v) (set ob)"
  by (induction ob) auto

lemma set_obj_set_subset: "set (obj_set ob k v) \<subseteq> insert (k, v) (set ob)"
  by (auto simp: obj_set_def set_insert_index split: option.splits dest: set_update_subset [THEN subsetD])

lemma set_obj_assign_subset: "set (obj_assign ob k v) \<subseteq> insert (k, v) (set ob)"
  using set_obj_set_subset [of ob k v] by (auto simp: obj_assign_def)

lemma distinct_add_unit:
  "add_unit ids u i cm = Inr cm' \<Longrightarrow> distinct (map fst cm) \<Longrightarrow> distinct (map fst cm')"
  by (auto simp: add_unit_def Let_def distinct_obj_set distinct_obj_assign split: option.splits if_splits)

lemma distinct_fold_add_unit:
  "fold_err (add_unit ids u) is cm = Inr cm' \<Longrightarrow> distinct (map fst cm) \<Longrightarrow> distinct (map fst cm')"
proof (induction "is" arbitrary: cm)
  case Nil
  then show ?case by simp
next
  case (Cons i "is")
  then show ?case by (auto split: sum.splits dest: distinct_add_unit)
qed

lemma distinct_fold_add_entry:
  "fold_err (add_entry ids) es cm = Inr cm' \<Longrightarrow> distinct (map fst cm) \<Longrightarrow> distinct (map fst cm')"
proof (induction es arbitrary: cm)
  case Nil
  then show ?case by simp
next
  case (Cons e es)
  then show ?case by (auto simp: add_entry_def split: sum.splits dest: distinct_fold_add_unit)
qed

lemma distinct_clusterMap_of: "clusterMap_of ps entries = Inr cm \<Longrightarrow> distinct (map fst cm)"
  using distinct_fold_add_entry [of "identifiers_of ps" entries "[]" cm] by (simp add: clusterMap_of_def)

text \<open>The unit maps that \<^verbatim>\<open>createUnitMap\<close> returns are objects with distinct keys, none
  of their COI names is the name of a property of \<^verbatim>\<open>Object.prototype\<close>, and no cluster
  identifier is \<^verbatim>\<open>__proto__\<close>: the assignments of the pattern allocator to them create own
  properties.\<close>

lemma plain_createUnitMap_loop:
  "createUnitMap_loop cs um = Inr um' \<Longrightarrow> plain_unitMap um \<Longrightarrow> plain_unitMap um'"
proof (induction cs arbitrary: um)
  case Nil
  then show ?case by simp
next
  case (Cons c cs)
  from Cons.prems(1) obtain p ps entries cm where p: "plan c = Present p"
    and cm: "clusterMap_of ps entries = Inr cm"
    and rest: "createUnitMap_loop cs (obj_assign um (plan_id p) cm) = Inr um'"
    by (auto split: field.splits sum.splits option.splits)
  let ?um = "obj_assign um (plan_id p) cm"
  have 1: "distinct (map fst ?um)" using Cons.prems(2) by (simp add: plain_unitMap_def distinct_obj_assign)
  have 2: "''__proto__'' \<notin> fst ` set ?um"
    using Cons.prems(2) keys_obj_assign [of um "plan_id p" cm] by (auto simp: plain_unitMap_def)
  have 3: "list_all (\<lambda>e. distinct (map fst (snd e)) \<and> fst ` set (snd e) \<inter> set proto_names = {}) ?um"
    unfolding list_all_iff
  proof
    fix e assume "e \<in> set ?um"
    then have "e = (plan_id p, cm) \<or> e \<in> set um"
      using set_obj_assign_subset [of um "plan_id p" cm] by auto
    then show "distinct (map fst (snd e)) \<and> fst ` set (snd e) \<inter> set proto_names = {}"
    proof
      assume "e = (plan_id p, cm)"
      then show ?thesis
        using distinct_clusterMap_of [OF cm] keys_clusterMap_of_plain [OF cm] by simp
    next
      assume "e \<in> set um"
      then show ?thesis
        using Cons.prems(2) unfolding plain_unitMap_def list_all_iff by blast
    qed
  qed
  from 1 2 3 have "plain_unitMap ?um" by (simp add: plain_unitMap_def)
  then show ?case using Cons.IH [OF rest] by simp
qed

lemma plain_createUnitMap: "createUnitMap cs = Inr um \<Longrightarrow> plain_unitMap um"
  using plain_createUnitMap_loop [of cs "[]" um] by (simp add: createUnitMap_def plain_unitMap_def)

text \<open>The validator does not protect the unit mapper: on what \<^verbatim>\<open>filterCOIs\<close> returns,
  \<^verbatim>\<open>createUnitMap\<close> returns exactly when every cluster kept is mappable.\<close>

lemma createUnitMap_filterCOIs:
  "(\<exists>filtered unitMap. filterCOIs clusters = Inr filtered \<and> createUnitMap filtered = Inr unitMap) \<longleftrightarrow>
   list_all mappable (filter valid clusters)"
  using createUnitMap_returns_iff [of "filter valid clusters"] by (simp add: filterCOIs_eq)

text \<open>The scenario of the specification: the unit map of clusters A and B, and the
  allocation of a catalog of three patterns, which uses the three names in order for
  A.Alpha, A.Beta and B.Gamma.\<close>

lemma scenario_unitMap: "createUnitMap [cluster_A, cluster_B] = Inr unitMap_AB"
  by (simp add: cluster_A_def cluster_B_def unitMap_AB_def createUnitMap_def entries_of_def
      clusterMap_of_def add_entry_def add_unit_def identifiers_of_def obj_set_def obj_assign_def
      array_index_def digit_of_def to_array_def name_key_def get_name_def proto_names_def)

lemma scenario_allocate:
  "allocate unitMap_AB catalog3 =
     ([(''A'', [(''Alpha'', JStr ''p1''), (''Beta'', JStr ''p2'')]), (''B'', [(''Gamma'', JStr ''p3'')])],
      catalog3, [])"
  by (simp add: allocate_def numberOfNames_def unitMap_AB_def catalog3_def patternsToCOIs_def
      include_js_def fromEntries_def shift_def obj_set_def array_index_def digit_of_def)

text \<open>Cluster identifiers that are array indices are enumerated in numeric order, not
  in the order of the clusters.\<close>

lemma numeric_cluster_identifiers_order:
  "createUnitMap
     [\<lparr>plan = Present \<lparr>plan_id = ''12'', parts = Some [], assignment = Present []\<rparr>\<rparr>,
      \<lparr>plan = Present \<lparr>plan_id = ''7'', parts = Some [], assignment = Present []\<rparr>\<rparr>] =
   Inr [(''7'', []), (''12'', [])]"
  by (simp add: createUnitMap_def entries_of_def clusterMap_of_def obj_set_def obj_assign_def
      array_index_def digit_of_def)

end
